theory Spec2Isabelle
  imports
    Main
    "HOL-Library.Word"
    "HOL-Library.Multiset"
    "HOL-Library.Char_ord"
    "HOL-Library.List_Lexorder"
    "HOL-Library.Mapping"
    "HOL-Library.AList_Mapping"
begin

unbundle bit_operations_syntax

text \<open>
  The tree walker and the grouping of \<^verbatim>\<open>tree-pro\<close>: \<^verbatim>\<open>internal/walker.go\<close> and
  \<^verbatim>\<open>internal/detect.go\<close>. The filesystem is a finite tree of named objects, read
  through \<^verbatim>\<open>os.Stat\<close> and \<^verbatim>\<open>os.ReadDir\<close>; strings are lists of bytes, compared
  byte by byte as Go compares them; the hash is FNV-1a on 64-bit words.
\<close>

section \<open>The filesystem snapshot\<close>

text \<open>
  A Go \<^verbatim>\<open>error\<close> value, as far as the walker looks at it: the dynamic type that
  \<^verbatim>\<open>%T\<close> prints, whether \<^verbatim>\<open>errors.Is(err, fs.ErrPermission)\<close> holds, and the text
  of \<^verbatim>\<open>err.Error()\<close>.
\<close>

datatype go_error = GoError (errType: string) (errIsPermission: bool) (errText: string)

text \<open>
  One object of the snapshot, as \<^verbatim>\<open>os.Stat\<close> and \<^verbatim>\<open>os.ReadDir\<close> show it: an entry
  that is not a directory, a directory that \<^verbatim>\<open>os.ReadDir\<close> lists (its entries in the
  order the operating system returns them), or a directory on which \<^verbatim>\<open>os.ReadDir\<close>
  fails with the given error.
\<close>

datatype fsnode =
    FsFile string
  | FsDir string "fsnode list"
  | FsUnreadable string go_error

fun entryName :: "fsnode \<Rightarrow> string" where
  "entryName (FsFile n) = n"
| "entryName (FsDir n es) = n"
| "entryName (FsUnreadable n e) = n"

fun entryIsDir :: "fsnode \<Rightarrow> bool" where
  "entryIsDir (FsFile n) = False"
| "entryIsDir (FsDir n es) = True"
| "entryIsDir (FsUnreadable n e) = True"

section \<open>Library functions the walker calls\<close>

text \<open>\<^verbatim>\<open>math.MaxInt\<close> on a 64-bit platform.\<close>

definition MaxInt :: int where
  "MaxInt = 9223372036854775807"

definition NUL :: char where
  "NUL = CHR 0x00"

text \<open>
  \<^verbatim>\<open>filepath.Ext\<close>: scan from the end of the path; stop with the empty string at a
  path separator, return the suffix that starts at the first dot met.
\<close>

fun extScan :: "string \<Rightarrow> string \<Rightarrow> string" where
  "extScan [] acc = []"
| "extScan (c # cs) acc =
     (if c = CHR ''/'' then []
      else if c = CHR ''.'' then c # acc
      else extScan cs (c # acc))"

definition filepath_Ext :: "string \<Rightarrow> string" where
  "filepath_Ext path = extScan (rev path) []"

text \<open>
  \<^verbatim>\<open>strings.ToLower\<close> follows the Unicode tables of the Go library: it maps every
  upper-case letter of every script to its lower case and replaces a byte that is not
  valid UTF-8. It is not computed here: the walker takes it as its parameter \<open>toLower\<close>.
  On a string of ASCII bytes its value is \<open>asciiLower\<close>: the letters A to Z become
  a to z, every other byte is kept.
\<close>

definition lowerChar :: "char \<Rightarrow> char" where
  "lowerChar c =
     (if (65::nat) \<le> of_char c \<and> of_char c \<le> (90::nat)
      then char_of (of_char c + (32::nat)) else c)"

definition asciiLower :: "string \<Rightarrow> string" where
  "asciiLower s = map lowerChar s"

text \<open>
  What is used of \<^verbatim>\<open>strings.ToLower\<close> beyond its being a function: the empty string
  stays empty, a string that starts with a dot becomes a string that starts with a dot,
  and no zero byte appears in the result of a string without one.
\<close>

definition lowerKeepsShape :: "(string \<Rightarrow> string) \<Rightarrow> bool" where
  "lowerKeepsShape toLower \<longleftrightarrow>
     toLower [] = [] \<and>
     (\<forall>s. toLower (CHR ''.'' # s) \<noteq> [] \<and> hd (toLower (CHR ''.'' # s)) = CHR ''.'') \<and>
     (\<forall>s. NUL \<notin> set s \<longrightarrow> NUL \<notin> set (toLower s))"

text \<open>
  \<^verbatim>\<open>filepath.Clean\<close> on Unix, by path elements: empty elements and \<^verbatim>\<open>.\<close> are dropped,
  \<^verbatim>\<open>..\<close> removes the element before it, is dropped at the root and is kept at the
  start of a relative path; the empty result is \<^verbatim>\<open>.\<close>.
\<close>

fun splitSlash :: "string \<Rightarrow> string \<Rightarrow> string list" where
  "splitSlash [] cur = [rev cur]"
| "splitSlash (c # cs) cur =
     (if c = CHR ''/'' then rev cur # splitSlash cs [] else splitSlash cs (c # cur))"

fun cleanElems :: "bool \<Rightarrow> string list \<Rightarrow> string list \<Rightarrow> string list" where
  "cleanElems rooted [] out = rev out"
| "cleanElems rooted (e # es) out =
     (if e = [] \<or> e = ''.'' then cleanElems rooted es out
      else if e = ''..'' then
        (case out of
           [] \<Rightarrow> if rooted then cleanElems rooted es out else cleanElems rooted es (e # out)
         | t # below \<Rightarrow>
             if t = ''..'' then cleanElems rooted es (e # out)
             else cleanElems rooted es below)
      else cleanElems rooted es (e # out))"

fun joinSlash :: "string list \<Rightarrow> string" where
  "joinSlash [] = []"
| "joinSlash [e] = e"
| "joinSlash (e # es) = e @ ''/'' @ joinSlash es"

definition filepath_Clean :: "string \<Rightarrow> string" where
  "filepath_Clean path =
     (let rooted = (path \<noteq> [] \<and> hd path = CHR ''/'');
          out = (if rooted then ''/'' else []) @ joinSlash (cleanElems rooted (splitSlash path []) [])
      in if out = [] then ''.'' else out)"

text \<open>
  \<^verbatim>\<open>filepath.Join\<close> of two elements: empty elements are ignored, the rest is joined
  with a separator and cleaned; with nothing left the result is empty.
\<close>

definition filepath_Join :: "string \<Rightarrow> string \<Rightarrow> string" where
  "filepath_Join a b =
     (if a = [] \<and> b = [] then []
      else if a = [] then filepath_Clean b
      else if b = [] then filepath_Clean a
      else filepath_Clean (a @ ''/'' @ b))"

subsection \<open>FNV-1a, 64 bit, and the formatting verbs\<close>

definition fnv_offset64 :: "64 word" where
  "fnv_offset64 = 14695981039346656037"

definition fnv_prime64 :: "64 word" where
  "fnv_prime64 = 1099511628211"

text \<open>\<^verbatim>\<open>hasher.Write\<close>: every byte is xor-ed into the state, which is then multiplied.\<close>

definition fnv_Write :: "64 word \<Rightarrow> string \<Rightarrow> 64 word" where
  "fnv_Write h bs = foldl (\<lambda>h c. (h XOR of_char c) * fnv_prime64) h bs"

definition hexDigit :: "nat \<Rightarrow> char" where
  "hexDigit d = ''0123456789abcdef'' ! d"

text \<open>The verb \<^verbatim>\<open>%x\<close> on an unsigned value: lower-case digits, no leading zero.\<close>

function hexNat :: "nat \<Rightarrow> string" where
  "hexNat n = (if n < 16 then [hexDigit n] else hexNat (n div 16) @ [hexDigit (n mod 16)])"
  by pat_completeness auto
termination
  by (relation "measure id") auto

declare hexNat.simps [simp del]

definition hex64 :: "64 word \<Rightarrow> string" where
  "hex64 w = hexNat (unat w)"

text \<open>The verb \<^verbatim>\<open>%d\<close>.\<close>

function decNat :: "nat \<Rightarrow> string" where
  "decNat n =
     (if n < 10 then [''0123456789'' ! n] else decNat (n div 10) @ [''0123456789'' ! (n mod 10)])"
  by pat_completeness auto
termination
  by (relation "measure id") auto

declare decNat.simps [simp del]

definition decInt :: "int \<Rightarrow> string" where
  "decInt i = (if i < 0 then ''-'' @ decNat (nat (- i)) else decNat (nat i))"

text \<open>
  \<^verbatim>\<open>intToBytes\<close>: the eight bytes of \<^verbatim>\<open>uint64(v)\<close>, least significant first. On \<open>int\<close>,
  \<open>div\<close> and \<open>mod\<close> round down, so a negative \<open>v\<close> gives its two's complement.
\<close>

definition intToBytes :: "int \<Rightarrow> string" where
  "intToBytes v = map (\<lambda>i. char_of ((v div 256 ^ i) mod 256)) [0..<8]"

section \<open>The tree the walker builds\<close>

datatype FileEntry = FileEntry (fe_Name: string)

datatype Directory = Directory
  (Name: string)
  (Path: string)
  (Level: int)
  (Subdirs: "Directory list")
  (Files: "FileEntry list")
  (HiddenFiles: int)
  (ImmediateDirCount: int)
  (ImmediateFileCount: int)
  (TotalDirs: int)
  (TotalFiles: int)
  (Signature: string)
  (Err: "go_error option")

record Options =
  MaxFiles :: int
  MaxLevel :: int

section \<open>Signatures\<close>

definition signatureForDirectory :: "(string, int) mapping \<Rightarrow> Directory list \<Rightarrow> string" where
  "signatureForDirectory fileExtCounts subdirs =
     (let h0 = fnv_Write fnv_offset64 ''files:'';
          exts = Mapping.ordered_keys fileExtCounts;
          h1 = foldl (\<lambda>h ext.
                 fnv_Write (fnv_Write (fnv_Write h ext) [NUL])
                   (intToBytes (Mapping.lookup_default 0 fileExtCounts ext))) h0 exts;
          h2 = fnv_Write h1 ''dirs:'';
          childSigs = sort (map Signature subdirs);
          h3 = foldl (\<lambda>h sig. fnv_Write (fnv_Write h sig) [NUL]) h2 childSigs
      in ''d:'' @ hex64 h3)"

definition signatureForLeaf :: "string \<Rightarrow> string" where
  "signatureForLeaf path = ''l:'' @ hex64 (fnv_Write (fnv_Write fnv_offset64 ''leaf:'') path)"

definition signatureForError :: "string \<Rightarrow> go_error \<Rightarrow> string" where
  "signatureForError path err = ''err:'' @ path @ '':'' @ errType err"

definition IsPermissionError :: "Directory option \<Rightarrow> bool" where
  "IsPermissionError d =
     (case d of
        None \<Rightarrow> False
      | Some dir \<Rightarrow> (case Err dir of None \<Rightarrow> False | Some e \<Rightarrow> errIsPermission e))"

section \<open>The walker\<close>

text \<open>The variables that the loop of \<^verbatim>\<open>walkDir\<close> updates.\<close>

record walk_state =
  fileExtCounts :: "(string, int) mapping"
  hiddenFiles :: int
  files :: "FileEntry list"
  subdirs :: "Directory list"

text \<open>The error of \<^verbatim>\<open>os.ReadDir\<close> on a path that is not a directory.\<close>

definition notDirError :: "string \<Rightarrow> go_error" where
  "notDirError path = GoError ''*fs.PathError'' False (''open '' @ path @ '': not a directory'')"

text \<open>
  \<^verbatim>\<open>walkDir\<close>. The first argument is the object that the snapshot holds at \<open>path\<close>;
  its three forms are the three outcomes of \<^verbatim>\<open>os.ReadDir(path)\<close>. The parameter
  \<open>toLower\<close> is \<^verbatim>\<open>strings.ToLower\<close>. The entries are sorted
  by name as \<^verbatim>\<open>sort.Slice\<close> does; that sort is not stable, which is of no account in
  a directory, whose entries have distinct names. The loop over the entries is a
  \<open>foldl\<close> over the state above, and the second loop sums the totals of the children.
  The Go \<^verbatim>\<open>int\<close> counters are \<open>int\<close>: they count entries of slices and stay far
  below \<^verbatim>\<open>math.MaxInt\<close>.
\<close>

fun walkDir ::
  "(string \<Rightarrow> string) \<Rightarrow> fsnode \<Rightarrow> string \<Rightarrow> string \<Rightarrow> int \<Rightarrow> Options \<Rightarrow> Directory" where
  "walkDir toLower (FsFile n) path name level opts =
     Directory name path level [] [] 0 0 0 0 0
       (signatureForError path (notDirError path)) (Some (notDirError path))"
| "walkDir toLower (FsUnreadable n err) path name level opts =
     Directory name path level [] [] 0 0 0 0 0 (signatureForError path err) (Some err)"
| "walkDir toLower (FsDir n ents) path name level opts =
     (let entries = sort_key entryName ents;
          maxFiles = (if MaxFiles opts \<le> 0 then MaxInt else MaxFiles opts);
          st = foldl (\<lambda>st entry.
                 if entryIsDir entry then
                   (let joined = filepath_Join path (entryName entry) in
                    if MaxLevel opts \<noteq> 0 \<and> level \<ge> MaxLevel opts then
                      st\<lparr>subdirs := subdirs st @
                        [Directory (entryName entry) joined (level + 1) [] [] 0 0 0 0 0
                           (signatureForLeaf joined) None]\<rparr>
                    else
                      st\<lparr>subdirs := subdirs st @
                        [walkDir toLower entry joined (entryName entry) (level + 1) opts]\<rparr>)
                 else
                   (let filename = entryName entry;
                        ext0 = toLower (filepath_Ext filename);
                        ext = (if ext0 = [] then ''<noext>'' else ext0);
                        st1 = st\<lparr>fileExtCounts :=
                                Mapping.update ext
                                  (Mapping.lookup_default 0 (fileExtCounts st) ext + 1)
                                  (fileExtCounts st)\<rparr>
                    in if int (length (files st1)) < maxFiles
                       then st1\<lparr>files := files st1 @ [FileEntry filename]\<rparr>
                       else st1\<lparr>hiddenFiles := hiddenFiles st1 + 1\<rparr>))
               \<lparr>fileExtCounts = Mapping.empty, hiddenFiles = 0, files = [], subdirs = []\<rparr>
               entries;
          immediateFileCount = int (length (files st)) + hiddenFiles st;
          totals = foldl (\<lambda>(totalDirs, totalFiles) child.
                     (totalDirs + TotalDirs child, totalFiles + TotalFiles child))
                   (int (length (subdirs st)), immediateFileCount) (subdirs st)
      in Directory name path level (subdirs st) (files st) (hiddenFiles st)
           (int (length (subdirs st))) immediateFileCount (fst totals) (snd totals)
           (signatureForDirectory (fileExtCounts st) (subdirs st)) None)"

text \<open>
  \<^verbatim>\<open>Walk\<close>. The argument \<open>stat\<close> is what the snapshot holds at \<open>path\<close>: the error of
  \<^verbatim>\<open>os.Stat\<close>, or the object found there, whose name is \<^verbatim>\<open>info.Name()\<close>.
\<close>

definition Walk ::
  "(string \<Rightarrow> string) \<Rightarrow> go_error + fsnode \<Rightarrow> string \<Rightarrow> Options \<Rightarrow> go_error + Directory" where
  "Walk toLower stat path opts =
     (case stat of
        Inl err \<Rightarrow> Inl err
      | Inr info \<Rightarrow>
          if \<not> entryIsDir info
          then Inl (GoError ''*errors.errorString'' False (path @ '' is not a directory''))
          else
            (let clean = filepath_Clean path;
                 root = walkDir toLower info clean (entryName info) 0 opts
             in case Err root of Some e \<Rightarrow> Inl e | None \<Rightarrow> Inr root))"

section \<open>Grouping\<close>

datatype DirGroup = DirGroup (dg_Signature: string) (dg_Members: "Directory list")

definition fallbackSignature :: "Directory \<Rightarrow> string" where
  "fallbackSignature dir = ''name:'' @ Name dir @ '':level:'' @ decInt (Level dir)"

text \<open>
  \<^verbatim>\<open>GroupIdentical\<close>. A \<^verbatim>\<open>nil\<close> pointer is \<open>None\<close>; reading a key that the Go map
  \<^verbatim>\<open>grouped\<close> does not hold gives the empty slice.
\<close>

definition GroupIdentical :: "Directory option list \<Rightarrow> DirGroup list" where
  "GroupIdentical dirs =
     (let (grouped, order) =
        foldl (\<lambda>(grouped, order) dir.
            case dir of
              None \<Rightarrow> (grouped, order)
            | Some d \<Rightarrow>
                (let sig0 = Signature d;
                     sig = (if sig0 = [] then fallbackSignature d else sig0);
                     order' = (if grouped sig = None then order @ [sig] else order)
                 in (grouped(sig \<mapsto> (case grouped sig of None \<Rightarrow> [] | Some ms \<Rightarrow> ms) @ [d]),
                     order')))
          (Map.empty :: string \<rightharpoonup> Directory list, []) dirs
      in map (\<lambda>sig. DirGroup sig (case grouped sig of None \<Rightarrow> [] | Some ms \<Rightarrow> ms)) order)"

section \<open>Notions used to state the properties\<close>

text \<open>The normalised extension of a file name, as the loop of \<^verbatim>\<open>walkDir\<close> computes it.\<close>

definition extOf :: "(string \<Rightarrow> string) \<Rightarrow> string \<Rightarrow> string" where
  "extOf toLower filename =
     (let ext0 = toLower (filepath_Ext filename)
      in if ext0 = [] then ''<noext>'' else ext0)"

text \<open>The statement \<^verbatim>\<open>fileExtCounts[ext]++\<close>.\<close>

definition bump :: "(string, int) mapping \<Rightarrow> string \<Rightarrow> (string, int) mapping" where
  "bump m ext = Mapping.update ext (Mapping.lookup_default 0 m ext + 1) m"

text \<open>The marker node recorded for a subdirectory that the depth limit cuts off.\<close>

definition leafNode :: "string \<Rightarrow> string \<Rightarrow> int \<Rightarrow> Directory" where
  "leafNode name joined level =
     Directory name joined level [] [] 0 0 0 0 0 (signatureForLeaf joined) None"

definition isLeafMarker :: "Directory \<Rightarrow> bool" where
  "isLeafMarker d \<longleftrightarrow> d = leafNode (Name d) (Path d) (Level d)"

text \<open>What the loop of \<^verbatim>\<open>walkDir\<close> appends to \<^verbatim>\<open>subdirs\<close> for a directory entry.\<close>

definition walkChild ::
  "(string \<Rightarrow> string) \<Rightarrow> string \<Rightarrow> int \<Rightarrow> Options \<Rightarrow> fsnode \<Rightarrow> Directory" where
  "walkChild toLower path level opts entry =
     (let joined = filepath_Join path (entryName entry)
      in if MaxLevel opts \<noteq> 0 \<and> level \<ge> MaxLevel opts
         then leafNode (entryName entry) joined (level + 1)
         else walkDir toLower entry joined (entryName entry) (level + 1) opts)"

text \<open>One round of the loop of \<^verbatim>\<open>walkDir\<close>.\<close>

definition walkStep ::
  "(string \<Rightarrow> string) \<Rightarrow> string \<Rightarrow> int \<Rightarrow> Options \<Rightarrow> int \<Rightarrow> walk_state \<Rightarrow> fsnode \<Rightarrow>
     walk_state" where
  "walkStep toLower path level opts maxFiles st entry =
     (if entryIsDir entry then st\<lparr>subdirs := subdirs st @ [walkChild toLower path level opts entry]\<rparr>
      else
        (let st1 = st\<lparr>fileExtCounts := bump (fileExtCounts st) (extOf toLower (entryName entry))\<rparr>
         in if int (length (files st1)) < maxFiles
            then st1\<lparr>files := files st1 @ [FileEntry (entryName entry)]\<rparr>
            else st1\<lparr>hiddenFiles := hiddenFiles st1 + 1\<rparr>))"

text \<open>The entries of a directory after \<^verbatim>\<open>sort.Slice\<close>, split as the loop splits them.\<close>

definition sortedEntries :: "fsnode list \<Rightarrow> fsnode list" where
  "sortedEntries ents = sort_key entryName ents"

definition dirEntries :: "fsnode list \<Rightarrow> fsnode list" where
  "dirEntries ents = filter entryIsDir (sortedEntries ents)"

definition fileNames :: "fsnode list \<Rightarrow> string list" where
  "fileNames ents = map entryName (filter (\<lambda>e. \<not> entryIsDir e) (sortedEntries ents))"

definition effectiveMaxFiles :: "Options \<Rightarrow> int" where
  "effectiveMaxFiles opts = (if MaxFiles opts \<le> 0 then MaxInt else MaxFiles opts)"

text \<open>The extension histogram of a list of file names: one \<^verbatim>\<open>++\<close> for each of them.\<close>

definition histogram :: "(string \<Rightarrow> string) \<Rightarrow> string list \<Rightarrow> (string, int) mapping" where
  "histogram toLower names = foldl bump Mapping.empty (map (extOf toLower) names)"

text \<open>All nodes of a tree, the root first.\<close>

fun nodes :: "Directory \<Rightarrow> Directory list" where
  "nodes (Directory name path level subs fs hidden idc ifc td tf sig err) =
     Directory name path level subs fs hidden idc ifc td tf sig err # concat (map nodes subs)"

text \<open>The bytes that \<^verbatim>\<open>signatureForDirectory\<close> writes to the hasher.\<close>

definition encodeExts :: "(string, int) mapping \<Rightarrow> string" where
  "encodeExts m =
     concat (map (\<lambda>ext. ext @ [NUL] @ intToBytes (Mapping.lookup_default 0 m ext))
       (Mapping.ordered_keys m))"

definition encodeSigs :: "string list \<Rightarrow> string" where
  "encodeSigs sigs = concat (map (\<lambda>sig. sig @ [NUL]) (sort sigs))"

definition encodeDirectory :: "(string, int) mapping \<Rightarrow> string list \<Rightarrow> string" where
  "encodeDirectory m sigs = ''files:'' @ encodeExts m @ ''dirs:'' @ encodeSigs sigs"

text \<open>One round of the loop of \<^verbatim>\<open>GroupIdentical\<close>.\<close>

definition groupStep ::
  "(string \<rightharpoonup> Directory list) \<times> string list \<Rightarrow> Directory option \<Rightarrow>
     (string \<rightharpoonup> Directory list) \<times> string list" where
  "groupStep acc dir =
     (case acc of (grouped, order) \<Rightarrow>
        (case dir of
           None \<Rightarrow> (grouped, order)
         | Some d \<Rightarrow>
             (let sig0 = Signature d;
                  sig = (if sig0 = [] then fallbackSignature d else sig0);
                  order' = (if grouped sig = None then order @ [sig] else order)
              in (grouped(sig \<mapsto> (case grouped sig of None \<Rightarrow> [] | Some ms \<Rightarrow> ms) @ [d]),
                  order'))))"

text \<open>The key under which \<^verbatim>\<open>GroupIdentical\<close> files a directory.\<close>

definition groupKey :: "Directory \<Rightarrow> string" where
  "groupKey d = (if Signature d = [] then fallbackSignature d else Signature d)"

text \<open>The elements of a list without repetition, each at its first occurrence.\<close>

fun firstOccurrences :: "'a list \<Rightarrow> 'a list" where
  "firstOccurrences [] = []"
| "firstOccurrences (x # xs) = x # firstOccurrences (filter (\<lambda>y. y \<noteq> x) xs)"

text \<open>The pointers of a slice that are not \<^verbatim>\<open>nil\<close>, in order.\<close>

definition nonNil :: "'a option list \<Rightarrow> 'a list" where
  "nonNil xs = List.map_filter id xs"

text \<open>
  Two snapshots that hold the same objects and differ only in the order in which
  \<^verbatim>\<open>os.ReadDir\<close> returns the entries of their directories.
\<close>

inductive reordered :: "fsnode \<Rightarrow> fsnode \<Rightarrow> bool" where
  sameFile: "reordered (FsFile n) (FsFile n)"
| sameUnreadable: "reordered (FsUnreadable n e) (FsUnreadable n e)"
| sameDir: "list_all2 reordered ents xs \<Longrightarrow> mset xs = mset ents' \<Longrightarrow>
        reordered (FsDir n ents) (FsDir n ents')"

text \<open>No directory of the snapshot holds two entries of the same name.\<close>

fun distinctNames :: "fsnode \<Rightarrow> bool" where
  "distinctNames (FsFile n) = True"
| "distinctNames (FsUnreadable n e) = True"
| "distinctNames (FsDir n ents) =
     (distinct (map entryName ents) \<and> list_all distinctNames ents)"

text \<open>
  What the byte encoding needs to be read back. An extension key holds no zero byte and
  starts like the keys the walker makes (a dot, or the token for files without
  extension), and its count fits the eight bytes written for it. A signature holds no
  zero byte.
\<close>

definition wfHistogram :: "(string, int) mapping \<Rightarrow> bool" where
  "wfHistogram m \<longleftrightarrow>
     finite (Mapping.keys m) \<and>
     (\<forall>ext \<in> Mapping.keys m.
        (hd ext = CHR ''.'' \<or> ext = ''<noext>'') \<and> ext \<noteq> [] \<and> NUL \<notin> set ext \<and>
        0 \<le> Mapping.lookup_default 0 m ext \<and> Mapping.lookup_default 0 m ext < 2 ^ 64)"

definition nulFree :: "string list \<Rightarrow> bool" where
  "nulFree strs \<longleftrightarrow> list_all (\<lambda>s. NUL \<notin> set s) strs"

text \<open>
  A snapshot as a filesystem holds it: no name has a zero byte, and neither has the type
  name of an error.
\<close>

fun nulFreeSnapshot :: "fsnode \<Rightarrow> bool" where
  "nulFreeSnapshot (FsFile n) = (NUL \<notin> set n)"
| "nulFreeSnapshot (FsUnreadable n e) = (NUL \<notin> set n \<and> NUL \<notin> set (errType e))"
| "nulFreeSnapshot (FsDir n ents) = (NUL \<notin> set n \<and> list_all nulFreeSnapshot ents)"

section \<open>Scenarios\<close>

text \<open>
  The names of the scenarios are ASCII text, on which \<^verbatim>\<open>strings.ToLower\<close> is
  \<open>asciiLower\<close>.
\<close>

text \<open>The tree \<^verbatim>\<open>root/{a/{x.txt}, b/{y.txt}}\<close>, walked with a depth limit of 1.\<close>

definition scenarioRoot :: fsnode where
  "scenarioRoot = FsDir ''root'' [FsDir ''a'' [FsFile ''x.txt''], FsDir ''b'' [FsFile ''y.txt'']]"

definition scenarioOpts :: Options where
  "scenarioOpts = \<lparr>MaxFiles = 0, MaxLevel = 1\<rparr>"

definition scenarioTree :: Directory where
  "scenarioTree = walkDir asciiLower scenarioRoot ''root'' ''root'' 0 scenarioOpts"

text \<open>
  The tree \<^verbatim>\<open>root/{pkg/{a/{f.go}, b/{f.go}}, scripts/{x.sh, y.sh, z.sh}}\<close>, walked with
  at most two files shown per directory.
\<close>

definition endToEndRoot :: fsnode where
  "endToEndRoot =
     FsDir ''root''
       [FsDir ''scripts'' [FsFile ''z.sh'', FsFile ''x.sh'', FsFile ''y.sh''],
        FsDir ''pkg'' [FsDir ''a'' [FsFile ''f.go''], FsDir ''b'' [FsFile ''f.go'']]]"

definition endToEndOpts :: Options where
  "endToEndOpts = \<lparr>MaxFiles = 2, MaxLevel = 0\<rparr>"

definition endToEndTree :: Directory where
  "endToEndTree = walkDir asciiLower endToEndRoot ''root'' ''root'' 0 endToEndOpts"

definition scriptsNode :: Directory where
  "scriptsNode =
     walkDir asciiLower (FsDir ''scripts'' [FsFile ''z.sh'', FsFile ''x.sh'', FsFile ''y.sh''])
       ''root/scripts'' ''scripts'' 1 endToEndOpts"

text \<open>
  A root with a subdirectory that cannot be read for lack of permission, next to one
  that can; and the error of \<^verbatim>\<open>os.Stat\<close> on a path that does not exist.
\<close>

definition permissionError :: go_error where
  "permissionError = GoError ''*fs.PathError'' True ''open root/locked: permission denied''"



definition unlimitedOpts :: Options where
  "unlimitedOpts = \<lparr>MaxFiles = 0, MaxLevel = 0\<rparr>"

text \<open>A node that carries nothing but a name and a signature, at level 1.\<close>

definition sigNode :: "string \<Rightarrow> string \<Rightarrow> Directory" where
  "sigNode name sig = Directory name name 1 [] [] 0 0 0 0 0 sig None"

text \<open>The end-to-end tree as another read order returns it, at every level.\<close>

definition endToEndShuffled :: fsnode where
  "endToEndShuffled =
     FsDir ''root''
       [FsDir ''pkg'' [FsDir ''b'' [FsFile ''f.go''], FsDir ''a'' [FsFile ''f.go'']],
        FsDir ''scripts'' [FsFile ''x.sh'', FsFile ''y.sh'', FsFile ''z.sh'']]"

text \<open>
  An error of the same Go type as \<open>permissionError\<close> and of another category: the
  directory has vanished.
\<close>

definition vanishedError :: go_error where
  "vanishedError = GoError ''*fs.PathError'' False ''open root/locked: no such file or directory''"

text \<open>Two directories, each with one file; the two extensions differ.\<close>

definition twinA :: fsnode where
  "twinA = FsDir ''d'' [FsFile ''f.nfojjbicobfhhomb'']"

definition twinB :: fsnode where
  "twinB = FsDir ''d'' [FsFile ''f.mdjldpdnhphpphal'']"

section \<open>The loop of the walker in closed form\<close>

lemma walkStep_fold:
  "walkDir toLower (FsDir n ents) path name level opts =
     (let st = foldl (walkStep toLower path level opts (effectiveMaxFiles opts))
                 \<lparr>fileExtCounts = Mapping.empty, hiddenFiles = 0, files = [], subdirs = []\<rparr>
                 (sortedEntries ents);
          immediateFileCount = int (length (files st)) + hiddenFiles st;
          totals = foldl (\<lambda>(totalDirs, totalFiles) child.
                     (totalDirs + TotalDirs child, totalFiles + TotalFiles child))
                   (int (length (subdirs st)), immediateFileCount) (subdirs st)
      in Directory name path level (subdirs st) (files st) (hiddenFiles st)
           (int (length (subdirs st))) immediateFileCount (fst totals) (snd totals)
           (signatureForDirectory (fileExtCounts st) (subdirs st)) None)"
proof -
  have step: "walkStep toLower path level opts (effectiveMaxFiles opts) = (\<lambda>st entry.
                 if entryIsDir entry then
                   (let joined = filepath_Join path (entryName entry) in
                    if MaxLevel opts \<noteq> 0 \<and> level \<ge> MaxLevel opts then
                      st\<lparr>subdirs := subdirs st @
                        [Directory (entryName entry) joined (level + 1) [] [] 0 0 0 0 0
                           (signatureForLeaf joined) None]\<rparr>
                    else
                      st\<lparr>subdirs := subdirs st @
                        [walkDir toLower entry joined (entryName entry) (level + 1) opts]\<rparr>)
                 else
                   (let filename = entryName entry;
                        ext0 = toLower (filepath_Ext filename);
                        ext = (if ext0 = [] then ''<noext>'' else ext0);
                        st1 = st\<lparr>fileExtCounts :=
                                Mapping.update ext
                                  (Mapping.lookup_default 0 (fileExtCounts st) ext + 1)
                                  (fileExtCounts st)\<rparr>
                    in if int (length (files st1)) < (if MaxFiles opts \<le> 0 then MaxInt else MaxFiles opts)
                       then st1\<lparr>files := files st1 @ [FileEntry filename]\<rparr>
                       else st1\<lparr>hiddenFiles := hiddenFiles st1 + 1\<rparr>))"
    by (intro ext) (simp add: walkStep_def walkChild_def leafNode_def extOf_def bump_def
        effectiveMaxFiles_def Let_def)
  show ?thesis
    unfolding step sortedEntries_def by (simp add: Let_def)
qed

declare walkDir.simps(3) [simp del]

lemma walkStep_dir:
  "entryIsDir e \<Longrightarrow>
     walkStep toLower path level opts m st e = st\<lparr>subdirs := subdirs st @ [walkChild toLower path level opts e]\<rparr>"
  by (simp add: walkStep_def)

lemma walkStep_file:
  "\<not> entryIsDir e \<Longrightarrow>
     walkStep toLower path level opts m st e =
       (if int (length (files st)) < m
        then st\<lparr>fileExtCounts := bump (fileExtCounts st) (extOf toLower (entryName e)),
                 files := files st @ [FileEntry (entryName e)]\<rparr>
        else st\<lparr>fileExtCounts := bump (fileExtCounts st) (extOf toLower (entryName e)),
                 hiddenFiles := hiddenFiles st + 1\<rparr>)"
  by (simp add: walkStep_def Let_def)

lemma loop_subdirs:
  "subdirs (foldl (walkStep toLower path level opts m) st xs) =
     subdirs st @ map (walkChild toLower path level opts) (filter entryIsDir xs)"
  by (induction xs arbitrary: st) (simp_all add: walkStep_dir walkStep_file)

lemma loop_fileExtCounts:
  "fileExtCounts (foldl (walkStep toLower path level opts m) st xs) =
     foldl bump (fileExtCounts st) (map (extOf toLower) (map entryName (filter (\<lambda>e. \<not> entryIsDir e) xs)))"
  by (induction xs arbitrary: st) (simp_all add: walkStep_dir walkStep_file)

lemma loop_files:
  "files (foldl (walkStep toLower path level opts m) st xs) =
     files st @ take (nat (m - int (length (files st))))
       (map FileEntry (map entryName (filter (\<lambda>e. \<not> entryIsDir e) xs)))"
proof (induction xs arbitrary: st)
  case Nil
  show ?case by simp
next
  case (Cons x xs)
  show ?case
  proof (cases "entryIsDir x")
    case True
    then show ?thesis by (simp add: Cons.IH walkStep_dir)
  next
    case False
    show ?thesis
    proof (cases "int (length (files st)) < m")
      case True
      then have "nat (m - int (length (files st))) = Suc (nat (m - (int (length (files st)) + 1)))"
        by linarith
      with True False show ?thesis
        by (simp add: Cons.IH walkStep_file add.commute)
    next
      case ge: False
      then have "nat (m - int (length (files st))) = 0" by simp
      with ge False show ?thesis
        by (simp add: Cons.IH walkStep_file)
    qed
  qed
qed

lemma loop_hiddenFiles:
  "hiddenFiles (foldl (walkStep toLower path level opts m) st xs) + int (length (files (foldl (walkStep toLower path level opts m) st xs))) =
     hiddenFiles st + int (length (files st)) + int (length (filter (\<lambda>e. \<not> entryIsDir e) xs))"
  by (induction xs arbitrary: st) (simp_all add: walkStep_dir walkStep_file)

lemma totals_fold:
  "foldl (\<lambda>(totalDirs, totalFiles) child.
       (totalDirs + TotalDirs child, totalFiles + TotalFiles child)) (a, b) cs =
     (a + sum_list (map TotalDirs cs), b + sum_list (map TotalFiles cs))"
  by (induction cs arbitrary: a b) simp_all

lemma walkDir_FsDir:
  "walkDir toLower (FsDir n ents) path name level opts =
     Directory name path level
       (map (walkChild toLower path level opts) (dirEntries ents))
       (take (nat (effectiveMaxFiles opts)) (map FileEntry (fileNames ents)))
       (int (length (fileNames ents)) - int (min (nat (effectiveMaxFiles opts)) (length (fileNames ents))))
       (int (length (dirEntries ents)))
       (int (length (fileNames ents)))
       (int (length (dirEntries ents)) + sum_list (map TotalDirs (map (walkChild toLower path level opts) (dirEntries ents))))
       (int (length (fileNames ents)) + sum_list (map TotalFiles (map (walkChild toLower path level opts) (dirEntries ents))))
       (signatureForDirectory (histogram toLower (fileNames ents)) (map (walkChild toLower path level opts) (dirEntries ents)))
       None"
proof -
  let ?init = "\<lparr>fileExtCounts = Mapping.empty, hiddenFiles = 0, files = [], subdirs = []\<rparr>"
  let ?st = "foldl (walkStep toLower path level opts (effectiveMaxFiles opts)) ?init (sortedEntries ents)"
  have s: "subdirs ?st = map (walkChild toLower path level opts) (dirEntries ents)"
    by (simp add: loop_subdirs dirEntries_def)
  have f: "files ?st = take (nat (effectiveMaxFiles opts)) (map FileEntry (fileNames ents))"
    by (simp add: loop_files fileNames_def)
  have c: "fileExtCounts ?st = histogram toLower (fileNames ents)"
    by (simp add: loop_fileExtCounts fileNames_def histogram_def)
  have "hiddenFiles ?st + int (length (files ?st)) = int (length (fileNames ents))"
    using loop_hiddenFiles [of toLower path level opts "effectiveMaxFiles opts" ?init "sortedEntries ents"]
    by (simp add: fileNames_def)
  then have h: "hiddenFiles ?st =
      int (length (fileNames ents)) - int (min (nat (effectiveMaxFiles opts)) (length (fileNames ents)))"
    by (simp add: f min.commute)
  have i: "int (length (files ?st)) + hiddenFiles ?st = int (length (fileNames ents))"
    using h f by (simp add: min.commute)
  show ?thesis
    unfolding walkStep_fold Let_def totals_fold i unfolding s f c h by simp
qed

lemma nodes_eq: "nodes d = d # concat (map nodes (Subdirs d))"
  by (cases d) simp

lemma nodes_leafNode: "nodes (leafNode name joined level) = [leafNode name joined level]"
  by (simp add: leafNode_def)

lemma walk_nodes_induct:
  assumes err: "\<And>name path level e. P (Directory name path level [] [] 0 0 0 0 0 (signatureForError path e) (Some e))"
    and leaf: "\<And>name path level. P (leafNode name path level)"
    and dir: "\<And>n ents path name level. P (walkDir toLower (FsDir n ents) path name level opts)"
  shows "d \<in> set (nodes (walkDir toLower node path name level opts)) \<Longrightarrow> P d"
proof (induction node arbitrary: path name level d)
  case (FsFile n)
  then show ?case using err by simp
next
  case (FsUnreadable n e)
  then show ?case using err by simp
next
  case (FsDir n ents)
  from FsDir.prems have "d = walkDir toLower (FsDir n ents) path name level opts
      \<or> (\<exists>e \<in> set (dirEntries ents). d \<in> set (nodes (walkChild toLower path level opts e)))"
    by (subst (asm) nodes_eq) (auto simp: walkDir_FsDir)
  then show ?case
  proof
    assume "d = walkDir toLower (FsDir n ents) path name level opts"
    then show ?thesis using dir by simp
  next
    assume "\<exists>e \<in> set (dirEntries ents). d \<in> set (nodes (walkChild toLower path level opts e))"
    then obtain e where e: "e \<in> set ents" and d: "d \<in> set (nodes (walkChild toLower path level opts e))"
      by (auto simp: dirEntries_def sortedEntries_def)
    show ?thesis
    proof (cases "MaxLevel opts \<noteq> 0 \<and> level \<ge> MaxLevel opts")
      case True
      with d have "d = leafNode (entryName e) (filepath_Join path (entryName e)) (level + 1)"
        by (simp add: walkChild_def nodes_leafNode)
      then show ?thesis using leaf by simp
    next
      case False
      with d have "d \<in> set (nodes (walkDir toLower e (filepath_Join path (entryName e)) (entryName e) (level + 1) opts))"
        by (simp add: walkChild_def Let_def)
      then show ?thesis using FsDir.IH [OF e] by blast
    qed
  qed
qed

lemma node_self: "d \<in> set (nodes d)"
  by (subst nodes_eq) simp

lemma truncation_nodes:
  assumes "d \<in> set (nodes (walkDir toLower node path name level opts))"
  shows "(0 < MaxFiles opts \<longrightarrow> HiddenFiles d = max 0 (ImmediateFileCount d - MaxFiles opts))
       \<and> (MaxFiles opts = 0 \<and> ImmediateFileCount d \<le> MaxInt \<longrightarrow> HiddenFiles d = 0)
       \<and> ImmediateFileCount d = int (length (Files d)) + HiddenFiles d
       \<and> int (length (Files d)) \<le> effectiveMaxFiles opts"
  by (rule walk_nodes_induct [OF _ _ _ assms])
    (auto simp add: leafNode_def walkDir_FsDir effectiveMaxFiles_def MaxInt_def)

subsection \<open>The extension histogram\<close>

lemma lookup_default_bump:
  "Mapping.lookup_default 0 (bump m x) e =
     (if e = x then Mapping.lookup_default 0 m x + 1 else Mapping.lookup_default 0 m e)"
  by (auto simp: bump_def lookup_default_update')

lemma keys_bump: "Mapping.keys (bump m x) = insert x (Mapping.keys m)"
  by (simp add: bump_def)

lemma lookup_default_foldl_bump:
  "Mapping.lookup_default 0 (foldl bump m exts) e =
     Mapping.lookup_default 0 m e + int (count_list exts e)"
  by (induction exts arbitrary: m) (simp_all add: lookup_default_bump)

lemma keys_foldl_bump: "Mapping.keys (foldl bump m exts) = Mapping.keys m \<union> set exts"
  by (induction exts arbitrary: m) (simp_all add: keys_bump)

lemma lookup_default_histogram:
  "Mapping.lookup_default 0 (histogram toLower names) e = int (count_list (map (extOf toLower) names) e)"
  by (simp add: histogram_def lookup_default_foldl_bump lookup_default_empty)

lemma keys_histogram: "Mapping.keys (histogram toLower names) = set (map (extOf toLower) names)"
  by (simp add: histogram_def keys_foldl_bump)

lemma ordered_keys_histogram:
  "Mapping.ordered_keys (histogram toLower names) = sort (remdups (map (extOf toLower) names))"
  by (simp add: ordered_keys_def keys_histogram sorted_list_of_set_sort_remdups del: set_map)

subsection \<open>The three kinds of signature\<close>

lemma signatureForDirectory_prefix: "take 2 (signatureForDirectory m subs) = ''d:''"
  by (simp add: signatureForDirectory_def Let_def)

lemma signatureForLeaf_prefix: "take 2 (signatureForLeaf p) = ''l:''"
  by (simp add: signatureForLeaf_def)

lemma signatureForError_prefix: "take 2 (signatureForError p e) = ''er''"
  by (simp add: signatureForError_def)

lemma sig_dir_neq_error: "signatureForDirectory m subs \<noteq> signatureForError p e"
  using signatureForDirectory_prefix [of m subs] signatureForError_prefix [of p e] by auto

lemma sig_dir_neq_leaf: "signatureForDirectory m subs \<noteq> signatureForLeaf p"
  using signatureForDirectory_prefix [of m subs] signatureForLeaf_prefix [of p] by auto

lemma sig_error_neq_leaf: "signatureForError p e \<noteq> signatureForLeaf q"
  using signatureForError_prefix [of p e] signatureForLeaf_prefix [of q] by auto

lemma signatureForDirectory_cong:
  "map Signature subs = map Signature subs' \<Longrightarrow>
     signatureForDirectory m subs = signatureForDirectory m subs'"
  by (simp add: signatureForDirectory_def)

subsection \<open>Levels and markers\<close>

lemma isLeafMarker_leafNode: "isLeafMarker (leafNode name joined level)"
  by (simp add: isLeafMarker_def leafNode_def)

lemma not_marker_dir: "\<not> isLeafMarker (walkDir toLower (FsDir n ents) path name level opts)"
  by (simp add: isLeafMarker_def leafNode_def walkDir_FsDir sig_dir_neq_leaf)

lemma not_marker_err:
  "\<not> isLeafMarker (Directory name path level [] [] 0 0 0 0 0 (signatureForError path e) (Some e))"
  by (simp add: isLeafMarker_def leafNode_def)

lemma Level_walkDir: "Level (walkDir toLower node path name level opts) = level"
  by (cases node) (simp_all add: walkDir_FsDir)

lemma not_marker_walkDir: "\<not> isLeafMarker (walkDir toLower node path name level opts)"
  by (cases node) (simp_all add: not_marker_dir not_marker_err)

lemma subdirs_expanded:
  "MaxLevel opts = 0 \<or> level < MaxLevel opts \<Longrightarrow>
     Subdirs (walkDir toLower (FsDir n ents) path name level opts) =
       map (\<lambda>e. walkDir toLower e (filepath_Join path (entryName e)) (entryName e) (level + 1) opts)
         (dirEntries ents)"
  by (auto simp: walkDir_FsDir walkChild_def Let_def)

lemma subdirs_markers:
  "MaxLevel opts \<noteq> 0 \<Longrightarrow> MaxLevel opts \<le> level \<Longrightarrow>
     Subdirs (walkDir toLower (FsDir n ents) path name level opts) =
       map (\<lambda>e. leafNode (entryName e) (filepath_Join path (entryName e)) (level + 1))
         (dirEntries ents)"
  by (auto simp: walkDir_FsDir walkChild_def Let_def)

lemma nodes_walkDir_FsDir:
  "d \<in> set (nodes (walkDir toLower (FsDir n ents) path name level opts)) \<longleftrightarrow>
     d = walkDir toLower (FsDir n ents) path name level opts
     \<or> (\<exists>e \<in> set (dirEntries ents). d \<in> set (nodes (walkChild toLower path level opts e)))"
  by (subst nodes_eq) (auto simp: walkDir_FsDir)

lemma dirEntries_subset: "e \<in> set (dirEntries ents) \<Longrightarrow> e \<in> set ents"
  by (simp add: dirEntries_def sortedEntries_def)

lemma depth_nodes:
  assumes "0 < MaxLevel opts" and "level \<le> MaxLevel opts"
    and "d \<in> set (nodes (walkDir toLower node path name level opts))"
  shows "level \<le> Level d \<and> Level d \<le> MaxLevel opts + 1
       \<and> (isLeafMarker d \<longleftrightarrow> Level d = MaxLevel opts + 1)"
  using assms(2,3)
proof (induction node arbitrary: level path name)
  case (FsFile n)
  then show ?case using assms(1) by (auto simp: not_marker_err)
next
  case (FsUnreadable n e)
  then show ?case using assms(1) by (auto simp: not_marker_err)
next
  case (FsDir n ents)
  from FsDir.prems(2) consider
      (root) "d = walkDir toLower (FsDir n ents) path name level opts"
    | (child) e where "e \<in> set (dirEntries ents)" "d \<in> set (nodes (walkChild toLower path level opts e))"
    by (auto simp: nodes_walkDir_FsDir)
  then show ?case
  proof cases
    case root
    then show ?thesis using FsDir.prems(1) not_marker_dir [of toLower n ents path name level opts]
      by (simp add: Level_walkDir)
  next
    case child
    show ?thesis
    proof (cases "level < MaxLevel opts")
      case True
      with child(2) have "d \<in> set (nodes (walkDir toLower e (filepath_Join path (entryName e)) (entryName e) (level + 1) opts))"
        by (simp add: walkChild_def Let_def)
      from FsDir.IH [OF dirEntries_subset [OF child(1)] _ this] True
      show ?thesis by auto
    next
      case False
      with FsDir.prems(1) assms(1) child(2)
      have d: "d = leafNode (entryName e) (filepath_Join path (entryName e)) (level + 1)"
        and l: "level = MaxLevel opts"
        by (auto simp: walkChild_def nodes_leafNode)
      show ?thesis using l isLeafMarker_leafNode unfolding d by (simp add: leafNode_def)
    qed
  qed
qed

lemma unlimited_nodes:
  assumes "MaxLevel opts = 0" and "d \<in> set (nodes (walkDir toLower node path name level opts))"
  shows "\<not> isLeafMarker d"
  using assms(2)
proof (induction node arbitrary: level path name)
  case (FsFile n)
  then show ?case by (auto simp: not_marker_err)
next
  case (FsUnreadable n e)
  then show ?case by (auto simp: not_marker_err)
next
  case (FsDir n ents)
  from FsDir.prems consider
      (root) "d = walkDir toLower (FsDir n ents) path name level opts"
    | (child) e where "e \<in> set (dirEntries ents)" "d \<in> set (nodes (walkChild toLower path level opts e))"
    by (auto simp: nodes_walkDir_FsDir)
  then show ?case
  proof cases
    case root
    then show ?thesis by (simp add: not_marker_dir)
  next
    case child
    from child(2) assms(1)
    have "d \<in> set (nodes (walkDir toLower e (filepath_Join path (entryName e)) (entryName e) (level + 1) opts))"
      by (simp add: walkChild_def Let_def)
    from FsDir.IH [OF dirEntries_subset [OF child(1)] this] show ?thesis .
  qed
qed

lemma Signature_walkDir_FsDir:
  "Signature (walkDir toLower (FsDir n ents) path name level opts) =
     signatureForDirectory (histogram toLower (fileNames ents))
       (Subdirs (walkDir toLower (FsDir n ents) path name level opts))"
  by (simp add: walkDir_FsDir)

lemma nodes_walkDir_FsDir_list:
  "nodes (walkDir toLower (FsDir n ents) path name level opts) =
     walkDir toLower (FsDir n ents) path name level opts #
       concat (map (\<lambda>e. nodes (walkChild toLower path level opts e)) (dirEntries ents))"
  by (subst nodes_eq) (simp add: walkDir_FsDir comp_def)

lemma nodes_map_head:
  "map f (nodes a) = map f (nodes b) \<Longrightarrow> f a = f b"
  by (cases a, cases b) simp

lemma MaxFiles_irrelevant:
  "map (\<lambda>d. (Path d, Signature d)) (nodes (walkDir toLower node path name level (opts\<lparr>MaxFiles := m1\<rparr>))) =
   map (\<lambda>d. (Path d, Signature d)) (nodes (walkDir toLower node path name level (opts\<lparr>MaxFiles := m2\<rparr>)))"
proof (induction node arbitrary: path name level)
  case (FsFile n)
  show ?case by simp
next
  case (FsUnreadable n e)
  show ?case by simp
next
  case (FsDir n ents)
  let ?f = "\<lambda>d. (Path d, Signature d)"
  let ?o1 = "opts\<lparr>MaxFiles := m1\<rparr>" and ?o2 = "opts\<lparr>MaxFiles := m2\<rparr>"
  have child: "map ?f (nodes (walkChild toLower path level ?o1 e)) = map ?f (nodes (walkChild toLower path level ?o2 e))"
    if "e \<in> set (dirEntries ents)" for e
    using FsDir.IH [OF dirEntries_subset [OF that]] by (simp add: walkChild_def Let_def)
  have sig: "Signature (walkChild toLower path level ?o1 e) = Signature (walkChild toLower path level ?o2 e)"
    if "e \<in> set (dirEntries ents)" for e
    using nodes_map_head [OF child [OF that]] by simp
  have root: "?f (walkDir toLower (FsDir n ents) path name level ?o1) = ?f (walkDir toLower (FsDir n ents) path name level ?o2)"
    using sig by (auto simp: walkDir_FsDir intro!: signatureForDirectory_cong)
  have rest: "concat (map (\<lambda>e. map ?f (nodes (walkChild toLower path level ?o1 e))) (dirEntries ents)) =
      concat (map (\<lambda>e. map ?f (nodes (walkChild toLower path level ?o2 e))) (dirEntries ents))"
    using child by (auto intro!: arg_cong [where f = concat])
  show ?case
    unfolding nodes_walkDir_FsDir_list list.map(2) map_concat map_map comp_def
    using root rest by simp
qed

subsection \<open>Evaluating a walk\<close>

lemmas eval_walk = walkDir_FsDir dirEntries_def fileNames_def sortedEntries_def walkChild_def
  effectiveMaxFiles_def MaxInt_def filepath_Join_def filepath_Clean_def leafNode_def

lemma Walk_FsDir:
  "Walk toLower (Inr (FsDir n ents)) path opts = Inr (walkDir toLower (FsDir n ents) (filepath_Clean path) n 0 opts)"
proof -
  have "Err (walkDir toLower (FsDir n ents) (filepath_Clean path) n 0 opts) = None"
    by (simp add: walkDir_FsDir)
  then show ?thesis by (simp add: Walk_def Let_def)
qed

lemma Walk_tree:
  assumes "Walk toLower stat path opts = Inr root"
  shows "\<exists>info. stat = Inr info \<and> root = walkDir toLower info (filepath_Clean path) (entryName info) 0 opts"
proof (cases stat)
  case (Inl e)
  with assms show ?thesis by (simp add: Walk_def)
next
  case (Inr info)
  with assms show ?thesis
    by (auto simp: Walk_def Let_def split: if_splits option.splits)
qed

lemma scriptsNode_in_tree: "scriptsNode \<in> set (nodes endToEndTree)"
  by (simp add: scriptsNode_def endToEndTree_def endToEndRoot_def endToEndOpts_def
      nodes_walkDir_FsDir dirEntries_def sortedEntries_def walkChild_def filepath_Join_def
      filepath_Clean_def node_self)

section \<open>The loop of the grouping in closed form\<close>

lemma firstOccurrences_snoc:
  "firstOccurrences (ks @ [k]) =
     (if k \<in> set ks then firstOccurrences ks else firstOccurrences ks @ [k])"
  by (induction ks rule: firstOccurrences.induct) auto

lemma set_firstOccurrences: "set (firstOccurrences ks) = set ks"
  by (induction ks rule: firstOccurrences.induct) auto

lemma distinct_firstOccurrences: "distinct (firstOccurrences ks)"
  by (induction ks rule: firstOccurrences.induct) (auto simp: set_firstOccurrences)

lemma nonNil_simps [simp]:
  "nonNil [] = []"
  "nonNil (None # xs) = nonNil xs"
  "nonNil (Some x # xs) = x # nonNil xs"
  by (simp_all add: nonNil_def List.map_filter_simps)

lemma nonNil_Cons: "nonNil (x # xs) = (case x of None \<Rightarrow> nonNil xs | Some d \<Rightarrow> d # nonNil xs)"
  by (cases x) simp_all

lemma nonNil_append: "nonNil (xs @ ys) = nonNil xs @ nonNil ys"
  by (induction xs) (simp_all add: nonNil_Cons split: option.splits)

lemma set_nonNil: "x \<in> set (nonNil xs) \<longleftrightarrow> Some x \<in> set xs"
  by (induction xs) (auto split: option.splits simp: nonNil_Cons)

lemma GroupIdentical_fold:
  "GroupIdentical dirs =
     (case foldl groupStep (Map.empty, []) dirs of (grouped, order) \<Rightarrow>
        map (\<lambda>sig. DirGroup sig (case grouped sig of None \<Rightarrow> [] | Some ms \<Rightarrow> ms)) order)"
proof -
  have "groupStep = (\<lambda>(grouped, order) dir.
            case dir of
              None \<Rightarrow> (grouped, order)
            | Some d \<Rightarrow>
                (let sig0 = Signature d;
                     sig = (if sig0 = [] then fallbackSignature d else sig0);
                     order' = (if grouped sig = None then order @ [sig] else order)
                 in (grouped(sig \<mapsto> (case grouped sig of None \<Rightarrow> [] | Some ms \<Rightarrow> ms) @ [d]),
                     order')))"
    by (intro ext) (simp add: groupStep_def split: prod.splits)
  then show ?thesis by (simp add: GroupIdentical_def)
qed

lemma groupStep_None: "groupStep (grouped, order) None = (grouped, order)"
  by (simp add: groupStep_def)

lemma groupStep_Some:
  "groupStep (grouped, order) (Some d) =
     (grouped(groupKey d \<mapsto> (case grouped (groupKey d) of None \<Rightarrow> [] | Some ms \<Rightarrow> ms) @ [d]),
      if grouped (groupKey d) = None then order @ [groupKey d] else order)"
  by (simp add: groupStep_def groupKey_def Let_def)

lemma group_loop:
  "foldl groupStep (Map.empty, []) dirs =
     ((\<lambda>s. if s \<in> groupKey ` set (nonNil dirs)
            then Some (filter (\<lambda>d. groupKey d = s) (nonNil dirs)) else None),
      firstOccurrences (map groupKey (nonNil dirs)))"
proof (induction dirs rule: rev_induct)
  case Nil
  show ?case by (simp add: fun_eq_iff)
next
  case (snoc x xs)
  show ?case
  proof (cases x)
    case None
    then have n: "nonNil (xs @ [x]) = nonNil xs" by (simp add: nonNil_append)
    show ?thesis unfolding n using None by (simp add: snoc.IH groupStep_None)
  next
    case (Some d)
    have "filter (\<lambda>d'. groupKey d' = groupKey d) (nonNil xs) = []"
      if "groupKey d \<notin> groupKey ` set (nonNil xs)"
    proof -
      have "\<forall>x \<in> set (nonNil xs). groupKey x \<noteq> groupKey d"
        using that by (metis imageI)
      then show ?thesis by (simp add: filter_empty_conv)
    qed
    moreover have n: "nonNil (xs @ [x]) = nonNil xs @ [d]"
      using Some by (simp add: nonNil_append)
    ultimately show ?thesis
      unfolding n using Some
      by (auto simp add: snoc.IH groupStep_Some firstOccurrences_snoc fun_eq_iff)
  qed
qed

lemma GroupIdentical_eq:
  "GroupIdentical dirs =
     map (\<lambda>s. DirGroup s (filter (\<lambda>d. groupKey d = s) (nonNil dirs)))
       (firstOccurrences (map groupKey (nonNil dirs)))"
  by (simp add: GroupIdentical_fold group_loop set_firstOccurrences)

lemma group_members_key:
  "g \<in> set (GroupIdentical dirs) \<Longrightarrow> d \<in> set (dg_Members g) \<Longrightarrow> groupKey d = dg_Signature g"
  by (auto simp: GroupIdentical_eq)

lemma mset_groups:
  "distinct ks \<Longrightarrow>
     mset (concat (map (\<lambda>s. filter (\<lambda>d. key d = s) ds) ks)) =
     mset (filter (\<lambda>d. key d \<in> set ks) ds)"
proof (induction ks)
  case Nil
  show ?case by simp
next
  case (Cons k ks)
  have "mset (filter (\<lambda>d. key d = k) ds) + mset (filter (\<lambda>d. key d \<in> set ks) ds) =
      mset (filter (\<lambda>d. key d = k \<or> key d \<in> set ks) ds)"
    using Cons.prems by (induction ds) auto
  with Cons show ?case by simp
qed

lemma walk_signature_nonempty:
  assumes "d \<in> set (nodes (walkDir toLower node path name level opts))"
  shows "Signature d \<noteq> []"
  by (rule walk_nodes_induct [OF _ _ _ assms])
    (simp_all add: leafNode_def walkDir_FsDir signatureForError_def signatureForLeaf_def
      signatureForDirectory_def Let_def)

lemma nonNil_map_Some: "nonNil (map Some ds) = ds"
  by (induction ds) simp_all

section \<open>The order of directory entries\<close>

lemma reordered_name: "reordered a b \<Longrightarrow> entryName a = entryName b"
  by (induction rule: reordered.induct) simp_all

lemma reordered_isDir: "reordered a b \<Longrightarrow> entryIsDir a = entryIsDir b"
  by (induction rule: reordered.induct) simp_all

lemma list_all2_insort_key:
  assumes "list_all2 R xs ys" and "R x y" and "\<And>a b. R a b \<Longrightarrow> f a = f b"
  shows "list_all2 R (insort_key f x xs) (insort_key f y ys)"
  using assms(1)
proof (induction rule: list_all2_induct)
  case Nil
  show ?case using assms(2) by simp
next
  case (Cons a as b bs)
  have "f a = f b" "f x = f y" using Cons.hyps(1) assms(2,3) by auto
  then show ?case using Cons assms(2) by simp
qed

lemma list_all2_sort_key:
  assumes "list_all2 R xs ys" and "\<And>a b. R a b \<Longrightarrow> f a = f b"
  shows "list_all2 R (sort_key f xs) (sort_key f ys)"
  using assms(1)
  by (induction rule: list_all2_induct) (simp_all add: list_all2_insort_key assms(2))

lemma list_all2_filter_same:
  assumes "list_all2 R xs ys" and "\<And>a b. R a b \<Longrightarrow> P a = Q b"
  shows "list_all2 R (filter P xs) (filter Q ys)"
  using assms(1)
proof (induction rule: list_all2_induct)
  case Nil
  show ?case by simp
next
  case (Cons a as b bs)
  then show ?case using assms(2) [OF Cons.hyps(1)] by simp
qed

lemma list_all2_map_eq:
  assumes "list_all2 R xs ys" and "\<And>a b. R a b \<Longrightarrow> g a = h b"
  shows "map g xs = map h ys"
  using assms(1)
  by (induction rule: list_all2_induct) (simp_all add: assms(2))

lemma walk_reordered:
  "reordered a b \<Longrightarrow>
     distinctNames a \<longrightarrow> (\<forall>path name level. walkDir toLower a path name level opts = walkDir toLower b path name level opts)"
proof (induction rule: reordered.induct)
  case (sameFile n)
  show ?case by simp
next
  case (sameUnreadable n e)
  show ?case by simp
next
  case (sameDir ents xs ents' n)
  show ?case
  proof (intro impI allI)
    fix path name level
    assume dn: "distinctNames (FsDir n ents)"
    let ?R = "\<lambda>x y. reordered x y \<and>
        (\<forall>path name level. walkDir toLower x path name level opts = walkDir toLower y path name level opts)"
    have rel: "list_all2 ?R ents xs"
      using sameDir.IH dn by (auto elim!: list.rel_mono_strong simp: list_all_iff)
    have nm: "entryName a = entryName b" and isd: "entryIsDir a = entryIsDir b" if "?R a b" for a b
      using that by (simp_all add: reordered_name reordered_isDir)
    have names: "map entryName ents = map entryName xs"
      using rel nm by (rule list_all2_map_eq)
    have "distinct (map entryName xs)" using dn names by simp
    then have "inj_on entryName (set xs)" by (simp add: distinct_map)
    with sameDir.hyps have sorted_eq: "sortedEntries xs = sortedEntries ents'"
      unfolding sortedEntries_def by (intro sort_key_eq_sort_key)
    have srel: "list_all2 ?R (sortedEntries ents) (sortedEntries xs)"
      unfolding sortedEntries_def using rel nm by (rule list_all2_sort_key)
    have drel: "list_all2 ?R (dirEntries ents) (dirEntries xs)"
      unfolding dirEntries_def using srel isd by (rule list_all2_filter_same)
    have frel: "list_all2 ?R (filter (\<lambda>e. \<not> entryIsDir e) (sortedEntries ents))
        (filter (\<lambda>e. \<not> entryIsDir e) (sortedEntries xs))"
      using srel by (rule list_all2_filter_same) (simp add: isd)
    have files: "fileNames ents = fileNames xs"
      unfolding fileNames_def using frel nm by (rule list_all2_map_eq)
    have children: "map (walkChild toLower path level opts) (dirEntries ents) =
        map (walkChild toLower path level opts) (dirEntries xs)"
    proof (rule list_all2_map_eq [OF drel])
      fix a b assume ab: "?R a b"
      then have "entryName a = entryName b" by (rule nm)
      with ab show "walkChild toLower path level opts a = walkChild toLower path level opts b"
        by (simp add: walkChild_def Let_def)
    qed
    have len: "length (dirEntries ents) = length (dirEntries xs)"
      using drel by (rule list_all2_lengthD)
    have "walkDir toLower (FsDir n ents) path name level opts = walkDir toLower (FsDir n xs) path name level opts"
      by (simp only: walkDir_FsDir files children len)
    also have "\<dots> = walkDir toLower (FsDir n ents') path name level opts"
      by (simp add: walkDir_FsDir dirEntries_def fileNames_def sorted_eq)
    finally show "walkDir toLower (FsDir n ents) path name level opts =
        walkDir toLower (FsDir n ents') path name level opts" .
  qed
qed

lemma sort_mset_cong: "mset xs = mset ys \<Longrightarrow> sort xs = sort (ys :: 'a::linorder list)"
  by (rule properties_for_sort) simp_all

lemma signatureForDirectory_perm:
  "mset subs = mset subs' \<Longrightarrow> signatureForDirectory m subs = signatureForDirectory m subs'"
proof -
  assume "mset subs = mset subs'"
  then have "mset (map Signature subs) = mset (map Signature subs')"
    by (metis mset_map)
  then have "sort (map Signature subs) = sort (map Signature subs')"
    by (rule sort_mset_cong)
  then show ?thesis by (simp add: signatureForDirectory_def)
qed

lemma fnv_Write_append: "fnv_Write h (a @ b) = fnv_Write (fnv_Write h a) b"
  by (simp add: fnv_Write_def)

lemma fnv_Write_exts:
  "foldl (\<lambda>h ext. fnv_Write (fnv_Write (fnv_Write h ext) [NUL]) (g ext)) h exts =
     fnv_Write h (concat (map (\<lambda>ext. ext @ [NUL] @ g ext) exts))"
  by (induction exts arbitrary: h) (simp_all add: fnv_Write_append fnv_Write_def)

lemma fnv_Write_sigs:
  "foldl (\<lambda>h sig. fnv_Write (fnv_Write h sig) [NUL]) h sigs =
     fnv_Write h (concat (map (\<lambda>sig. sig @ [NUL]) sigs))"
  by (induction sigs arbitrary: h) (simp_all add: fnv_Write_append fnv_Write_def)

lemma signatureForDirectory_encode:
  "signatureForDirectory m subs =
     ''d:'' @ hex64 (fnv_Write fnv_offset64 (encodeDirectory m (map Signature subs)))"
  unfolding signatureForDirectory_def Let_def encodeDirectory_def encodeExts_def encodeSigs_def
    fnv_Write_append fnv_Write_exts fnv_Write_sigs ..

lemma ordered_keys_sorted: "sorted (Mapping.ordered_keys m)"
  by (simp add: ordered_keys_def)

lemma reordered_refl: "reordered a a"
proof (induction a)
  case (FsDir n ents)
  then have "list_all2 reordered ents ents"
    by (simp add: list_all2_same)
  then show ?case by (rule reordered.sameDir) simp
qed (simp_all add: reordered.intros)

lemma walk_entry_order:
  assumes "mset ents = mset ents'" and "distinct (map entryName ents)"
  shows "walkDir toLower (FsDir n ents) path name level opts = walkDir toLower (FsDir n ents') path name level opts"
proof -
  from assms(2) have "inj_on entryName (set ents)" by (simp add: distinct_map)
  with assms(1) have "sortedEntries ents = sortedEntries ents'"
    unfolding sortedEntries_def by (intro sort_key_eq_sort_key)
  then show ?thesis by (simp add: walkDir_FsDir dirEntries_def fileNames_def)
qed

lemma reordered_perm: "mset ents = mset ents' \<Longrightarrow> reordered (FsDir n ents) (FsDir n ents')"
  by (rule reordered.sameDir [where xs = ents]) (simp_all add: list_all2_same reordered_refl)

lemma endToEnd_reordered: "reordered endToEndRoot endToEndShuffled"
  unfolding endToEndRoot_def endToEndShuffled_def
  by (rule reordered.sameDir [where xs =
        "[FsDir ''scripts'' [FsFile ''x.sh'', FsFile ''y.sh'', FsFile ''z.sh''],
          FsDir ''pkg'' [FsDir ''b'' [FsFile ''f.go''], FsDir ''a'' [FsFile ''f.go'']]]"])
    (simp_all add: reordered_perm)

section \<open>The byte encoding behind a signature\<close>

subsection \<open>Hexadecimal digits\<close>

lemma below_16:
  "d < 16 \<Longrightarrow>
     d = 0 \<or> d = 1 \<or> d = 2 \<or> d = 3 \<or> d = 4 \<or> d = 5 \<or> d = 6 \<or> d = 7 \<or> d = 8 \<or> d = 9
     \<or> d = 10 \<or> d = 11 \<or> d = 12 \<or> d = 13 \<or> d = 14 \<or> d = (15::nat)"
  by arith

lemma of_char_hexDigit: "d < 16 \<Longrightarrow> (of_char (hexDigit d) :: nat) = (if d < 10 then 48 + d else 87 + d)"
  by (drule below_16) (elim disjE, simp_all add: hexDigit_def)

lemma hexDigit_inj: "d < 16 \<Longrightarrow> d' < 16 \<Longrightarrow> hexDigit d = hexDigit d' \<Longrightarrow> d = d'"
proof -
  assume a: "d < 16" "d' < 16" "hexDigit d = hexDigit d'"
  then have "(of_char (hexDigit d) :: nat) = of_char (hexDigit d')" by simp
  with a(1,2) show ?thesis by (simp add: of_char_hexDigit split: if_splits)
qed

lemma hexDigit_not_NUL: "d < 16 \<Longrightarrow> hexDigit d \<noteq> NUL"
proof
  assume a: "d < 16" "hexDigit d = NUL"
  then have "(of_char (hexDigit d) :: nat) = of_char NUL" by simp
  with a(1) show False by (simp add: of_char_hexDigit NUL_def split: if_splits)
qed

lemma hexNat_nonempty: "hexNat n \<noteq> []"
  by (subst hexNat.simps) simp

lemma hexNat_inj: "hexNat n = hexNat m \<Longrightarrow> n = m"
proof (induction n arbitrary: m rule: hexNat.induct)
  case (1 n)
  show ?case
  proof (cases "n < 16")
    case True
    show ?thesis
    proof (cases "m < 16")
      case m: True
      with True "1.prems" have "hexDigit n = hexDigit m"
        by (subst (asm) hexNat.simps, subst (asm) (2) hexNat.simps) simp
      with True m show ?thesis by (rule hexDigit_inj)
    next
      case m: False
      with True "1.prems" have "[hexDigit n] = hexNat (m div 16) @ [hexDigit (m mod 16)]"
        by (subst (asm) hexNat.simps, subst (asm) (2) hexNat.simps) simp
      then show ?thesis using hexNat_nonempty [of "m div 16"] by simp
    qed
  next
    case False
    show ?thesis
    proof (cases "m < 16")
      case m: True
      with False "1.prems" have "hexNat (n div 16) @ [hexDigit (n mod 16)] = [hexDigit m]"
        by (subst (asm) hexNat.simps, subst (asm) (2) hexNat.simps) simp
      then show ?thesis using hexNat_nonempty [of "n div 16"] by simp
    next
      case m: False
      with False "1.prems" have e: "hexNat (n div 16) @ [hexDigit (n mod 16)] =
          hexNat (m div 16) @ [hexDigit (m mod 16)]"
        by (subst (asm) hexNat.simps, subst (asm) (2) hexNat.simps) simp
      then have "hexNat (n div 16) = hexNat (m div 16)" and d: "hexDigit (n mod 16) = hexDigit (m mod 16)"
        by simp_all
      then have "n div 16 = m div 16" using "1.IH" [OF False] by simp
      moreover have "n mod 16 = m mod 16" using d by (intro hexDigit_inj) simp_all
      ultimately show ?thesis by (metis div_mult_mod_eq)
    qed
  qed
qed

lemma hex64_inj: "hex64 v = hex64 w \<Longrightarrow> v = w"
  using hexNat_inj [of "unat v" "unat w"] by (simp add: hex64_def word_unat_eq_iff)

lemma hexNat_no_NUL: "NUL \<notin> set (hexNat n)"
proof (induction n rule: hexNat.induct)
  case (1 n)
  show ?case
  proof (cases "n < 16")
    case True
    then show ?thesis using hexDigit_not_NUL [of n] by (subst hexNat.simps) auto
  next
    case False
    then show ?thesis using "1.IH" hexDigit_not_NUL [of "n mod 16"]
      by (subst hexNat.simps) auto
  qed
qed

lemma signatureForDirectory_no_NUL: "NUL \<notin> set (signatureForDirectory m subs)"
  using hexNat_no_NUL [of "unat (fnv_Write fnv_offset64 (encodeDirectory m (map Signature subs)))"]
  by (simp add: signatureForDirectory_encode hex64_def NUL_def)

lemma signatureForLeaf_no_NUL: "NUL \<notin> set (signatureForLeaf p)"
  using hexNat_no_NUL [of "unat (fnv_Write (fnv_Write fnv_offset64 ''leaf:'') p)"]
  by (simp add: signatureForLeaf_def hex64_def NUL_def)

lemma signatureForError_NUL:
  "NUL \<in> set (signatureForError p e) \<longleftrightarrow> NUL \<in> set p \<or> NUL \<in> set (errType e)"
  by (auto simp: signatureForError_def NUL_def)

lemma signatureForDirectory_eq_iff:
  "signatureForDirectory m1 subs1 = signatureForDirectory m2 subs2 \<longleftrightarrow>
     fnv_Write fnv_offset64 (encodeDirectory m1 (map Signature subs1)) =
     fnv_Write fnv_offset64 (encodeDirectory m2 (map Signature subs2))"
  by (auto simp: signatureForDirectory_encode dest: hex64_inj)

lemma split_at_NUL:
  "NUL \<notin> set a \<Longrightarrow> NUL \<notin> set b \<Longrightarrow> a @ NUL # x = b @ NUL # y \<Longrightarrow> a = b \<and> x = y"
proof (induction a arbitrary: b)
  case Nil
  then show ?case by (cases b) auto
next
  case (Cons c a)
  then show ?case by (cases b) auto
qed

lemma div_mod_256_eq:
  fixes x y :: int
  assumes "x div 256 = y div 256" and "x mod 256 = y mod 256"
  shows "x = y"
  using assms by (metis div_mult_mod_eq)

lemma char_of_mod_eq:
  fixes a b :: int
  assumes "char_of (a mod 256) = char_of (b mod 256)"
  shows "a mod 256 = b mod 256"
proof -
  from assms have "(of_char (char_of (a mod 256)) :: int) = of_char (char_of (b mod 256))" by simp
  then show ?thesis by simp
qed

lemma intToBytes_nth: "i < 8 \<Longrightarrow> intToBytes v ! i = char_of ((v div 256 ^ i) mod 256)"
  by (simp add: intToBytes_def)

lemma length_intToBytes: "length (intToBytes v) = 8"
  by (simp add: intToBytes_def)

lemma intToBytes_inj:
  assumes "intToBytes v = intToBytes w" and "0 \<le> v" "v < 2 ^ 64" "0 \<le> w" "w < 2 ^ 64"
  shows "v = w"
proof -
  have m: "(v div 256 ^ i) mod 256 = (w div 256 ^ i) mod 256" if "i < 8" for i
  proof -
    have "intToBytes v ! i = intToBytes w ! i" using assms(1) by simp
    then have "char_of ((v div 256 ^ i) mod 256) = char_of ((w div 256 ^ i) mod 256)"
      using that by (simp only: intToBytes_nth)
    then show ?thesis by (rule char_of_mod_eq)
  qed
  have p: "(256::int) ^ 8 = 2 ^ 64" by simp
  have top: "v div 256 ^ 8 = w div 256 ^ 8"
    unfolding p using assms(2-5) by (simp only: div_pos_pos_trivial)
  have step: "v div 256 ^ i = w div 256 ^ i" if "v div 256 ^ Suc i = w div 256 ^ Suc i" "i < 8" for i
  proof (rule div_mod_256_eq)
    have d: "x div 256 ^ i div 256 = x div 256 ^ Suc i" for x :: int
    proof -
      have "x div 256 ^ Suc i = x div (256 ^ i * 256)" by (simp only: power_Suc2)
      also have "\<dots> = x div 256 ^ i div 256" by (rule zdiv_zmult2_eq) simp
      finally show ?thesis by simp
    qed
    have "v div 256 ^ i div 256 = v div 256 ^ Suc i" "w div 256 ^ i div 256 = w div 256 ^ Suc i"
      by (rule d)+
    with that(1) show "v div 256 ^ i div 256 = w div 256 ^ i div 256" by simp
    show "v div 256 ^ i mod 256 = w div 256 ^ i mod 256" using m [OF that(2)] .
  qed
  have "v div 256 ^ (8 - k) = w div 256 ^ (8 - k)" if "k \<le> 8" for k
    using that
  proof (induction k)
    case 0
    show ?case using top by simp
  next
    case (Suc k)
    from Suc.prems have "Suc (8 - Suc k) = 8 - k" by simp
    with Suc have "v div 256 ^ Suc (8 - Suc k) = w div 256 ^ Suc (8 - Suc k)"
      by (simp only: Suc_leD)
    then show ?case by (rule step) (use Suc.prems in simp)
  qed
  from this [of 8] show ?thesis by simp
qed

lemma parse_exts:
  assumes "\<forall>(e, c) \<in> set ps. e \<noteq> [] \<and> hd e \<noteq> CHR ''d'' \<and> NUL \<notin> set e \<and> 0 \<le> c \<and> c < 2 ^ 64"
    and "\<forall>(e, c) \<in> set qs. e \<noteq> [] \<and> hd e \<noteq> CHR ''d'' \<and> NUL \<notin> set e \<and> 0 \<le> c \<and> c < 2 ^ 64"
    and "concat (map (\<lambda>(e, c). e @ NUL # intToBytes c) ps) @ ''dirs:'' @ r1 =
         concat (map (\<lambda>(e, c). e @ NUL # intToBytes c) qs) @ ''dirs:'' @ r2"
  shows "ps = qs \<and> r1 = r2"
  using assms
proof (induction ps arbitrary: qs)
  case Nil
  show ?case
  proof (cases qs)
    case Nil
    with Nil.prems show ?thesis by simp
  next
    case (Cons q qs')
    obtain e c where q: "q = (e, c)" by (cases q)
    with Cons Nil.prems(2) have "e \<noteq> []" "hd e \<noteq> CHR ''d''" by auto
    moreover from Nil.prems(3) Cons q have "''dirs:'' @ r1 = e @ NUL # intToBytes c @ concat (map (\<lambda>(e, c). e @ NUL # intToBytes c) qs') @ ''dirs:'' @ r2"
      by simp
    ultimately show ?thesis by (cases e) auto
  qed
next
  case (Cons p ps)
  obtain e c where p: "p = (e, c)" by (cases p)
  from Cons.prems(1) p have pe: "e \<noteq> []" "hd e \<noteq> CHR ''d''" "NUL \<notin> set e" "0 \<le> c" "c < 2 ^ 64"
    by auto
  show ?case
  proof (cases qs)
    case Nil
    with Cons.prems(3) p have "e @ NUL # intToBytes c @ concat (map (\<lambda>(e, c). e @ NUL # intToBytes c) ps) @ ''dirs:'' @ r1 = ''dirs:'' @ r2"
      by simp
    with pe(1,2) show ?thesis by (cases e) auto
  next
    case qs: (Cons q qs')
    obtain e' c' where q: "q = (e', c')" by (cases q)
    from Cons.prems(2) qs q have qe: "NUL \<notin> set e'" "0 \<le> c'" "c' < 2 ^ 64"
      by auto
    let ?enc = "\<lambda>(e, c). e @ NUL # intToBytes c"
    from Cons.prems(3) p qs q
    have "e @ NUL # (intToBytes c @ concat (map ?enc ps) @ ''dirs:'' @ r1) =
        e' @ NUL # (intToBytes c' @ concat (map ?enc qs') @ ''dirs:'' @ r2)"
      by simp
    from split_at_NUL [OF pe(3) qe(1) this]
    have e: "e = e'" and rest: "intToBytes c @ (concat (map ?enc ps) @ ''dirs:'' @ r1) =
        intToBytes c' @ (concat (map ?enc qs') @ ''dirs:'' @ r2)"
      by simp_all
    from rest have b: "intToBytes c = intToBytes c'"
      and rest': "concat (map ?enc ps) @ ''dirs:'' @ r1 = concat (map ?enc qs') @ ''dirs:'' @ r2"
      by (simp_all add: append_eq_append_conv length_intToBytes)
    from b pe(4,5) qe(2,3) have c: "c = c'" by (rule intToBytes_inj)
    from Cons.prems(1) have 1: "\<forall>(e, c) \<in> set ps. e \<noteq> [] \<and> hd e \<noteq> CHR ''d'' \<and> NUL \<notin> set e \<and> 0 \<le> c \<and> c < 2 ^ 64"
      by simp
    from Cons.prems(2) qs have 2: "\<forall>(e, c) \<in> set qs'. e \<noteq> [] \<and> hd e \<noteq> CHR ''d'' \<and> NUL \<notin> set e \<and> 0 \<le> c \<and> c < 2 ^ 64"
      by simp
    from Cons.IH [OF 1 2 rest'] e c p q qs show ?thesis by simp
  qed
qed

lemma parse_sigs:
  assumes "list_all (\<lambda>s. NUL \<notin> set s) xs" and "list_all (\<lambda>s. NUL \<notin> set s) ys"
    and "concat (map (\<lambda>s. s @ [NUL]) xs) = concat (map (\<lambda>s. s @ [NUL]) ys)"
  shows "xs = ys"
  using assms
proof (induction xs arbitrary: ys)
  case Nil
  then show ?case by (cases ys) simp_all
next
  case (Cons x xs)
  show ?case
  proof (cases ys)
    case Nil
    with Cons.prems show ?thesis by simp
  next
    case ys: (Cons y ys')
    from Cons.prems(3) ys
    have "x @ NUL # concat (map (\<lambda>s. s @ [NUL]) xs) = y @ NUL # concat (map (\<lambda>s. s @ [NUL]) ys')"
      by simp
    moreover from Cons.prems(1,2) ys have "NUL \<notin> set x" "NUL \<notin> set y" by simp_all
    ultimately have "x = y" and "concat (map (\<lambda>s. s @ [NUL]) xs) = concat (map (\<lambda>s. s @ [NUL]) ys')"
      using split_at_NUL by blast+
    with Cons.IH [of ys'] Cons.prems(1,2) ys show ?thesis by simp
  qed
qed

lemma lookup_via_default:
  "Mapping.lookup m e = (if e \<in> Mapping.keys m then Some (Mapping.lookup_default d m e) else None)"
  by (auto simp: lookup_default_def keys_dom_lookup split: option.splits)

lemma mapping_eq_by_keys:
  assumes "finite (Mapping.keys m1)" and "finite (Mapping.keys m2)"
    and "map (\<lambda>e. (e, Mapping.lookup_default 0 m1 e)) (Mapping.ordered_keys m1) =
         map (\<lambda>e. (e, Mapping.lookup_default (0::int) m2 e)) (Mapping.ordered_keys m2)"
  shows "m1 = (m2 :: (string, int) mapping)"
proof (rule mapping_eqI)
  fix e
  from assms(3) have "map fst (map (\<lambda>e. (e, Mapping.lookup_default 0 m1 e)) (Mapping.ordered_keys m1)) =
      map fst (map (\<lambda>e. (e, Mapping.lookup_default 0 m2 e)) (Mapping.ordered_keys m2))"
    by simp
  then have ok: "Mapping.ordered_keys m1 = Mapping.ordered_keys m2"
    by (simp add: comp_def)
  with assms(1,2) have k: "Mapping.keys m1 = Mapping.keys m2"
    using Mapping.set_ordered_keys by metis
  have "Mapping.lookup_default 0 m1 e = Mapping.lookup_default 0 m2 e" if "e \<in> Mapping.keys m1"
  proof -
    from that assms(1) have "e \<in> set (Mapping.ordered_keys m2)" by (simp add: ok [symmetric])
    with assms(3) [unfolded ok] show ?thesis by simp
  qed
  then show "Mapping.lookup m1 e = Mapping.lookup m2 e"
    by (simp add: lookup_via_default [where d = 0] k)
qed

lemma encodeExts_pairs:
  "encodeExts m =
     concat (map (\<lambda>(e, c). e @ NUL # intToBytes c)
       (map (\<lambda>e. (e, Mapping.lookup_default 0 m e)) (Mapping.ordered_keys m)))"
  by (simp add: encodeExts_def comp_def)

lemma wfHistogram_pairs:
  assumes "wfHistogram m"
  shows "\<forall>(e, c) \<in> set (map (\<lambda>e. (e, Mapping.lookup_default 0 m e)) (Mapping.ordered_keys m)).
           e \<noteq> [] \<and> hd e \<noteq> CHR ''d'' \<and> NUL \<notin> set e \<and> 0 \<le> c \<and> c < 2 ^ 64"
proof -
  from assms have f: "finite (Mapping.keys m)" by (simp add: wfHistogram_def)
  have "e \<noteq> [] \<and> hd e \<noteq> CHR ''d'' \<and> NUL \<notin> set e
      \<and> 0 \<le> Mapping.lookup_default 0 m e \<and> Mapping.lookup_default 0 m e < 2 ^ 64"
    if "e \<in> Mapping.keys m" for e
  proof -
    from assms that have w: "hd e = CHR ''.'' \<or> e = ''<noext>''" "e \<noteq> []" "NUL \<notin> set e"
      "0 \<le> Mapping.lookup_default 0 m e" "Mapping.lookup_default 0 m e < 2 ^ 64"
      unfolding wfHistogram_def by blast+
    from w(1) have "hd e \<noteq> CHR ''d''"
    proof
      assume "hd e = CHR ''.''" then show ?thesis by simp
    next
      assume "e = ''<noext>''" then show ?thesis by simp
    qed
    with w show ?thesis by blast
  qed
  with f show ?thesis by (simp add: split_beta)
qed

lemma encodeDirectory_inj:
  assumes "wfHistogram m1" and "wfHistogram m2" and "nulFree sigs1" and "nulFree sigs2"
    and "encodeDirectory m1 sigs1 = encodeDirectory m2 sigs2"
  shows "m1 = m2 \<and> mset sigs1 = mset sigs2"
proof -
  let ?ps = "map (\<lambda>e. (e, Mapping.lookup_default 0 m1 e)) (Mapping.ordered_keys m1)"
  let ?qs = "map (\<lambda>e. (e, Mapping.lookup_default 0 m2 e)) (Mapping.ordered_keys m2)"
  from assms(5) have "concat (map (\<lambda>(e, c). e @ NUL # intToBytes c) ?ps) @ ''dirs:'' @ encodeSigs sigs1 =
      concat (map (\<lambda>(e, c). e @ NUL # intToBytes c) ?qs) @ ''dirs:'' @ encodeSigs sigs2"
    by (simp only: encodeDirectory_def encodeExts_pairs same_append_eq)
  from parse_exts [OF wfHistogram_pairs [OF assms(1)] wfHistogram_pairs [OF assms(2)] this]
  have p: "?ps = ?qs" and s: "encodeSigs sigs1 = encodeSigs sigs2" by simp_all
  from assms(1,2) have "finite (Mapping.keys m1)" "finite (Mapping.keys m2)"
    by (simp_all add: wfHistogram_def)
  then have m: "m1 = m2" using p by (rule mapping_eq_by_keys)
  from assms(3,4) have "list_all (\<lambda>s. NUL \<notin> set s) (sort sigs1)" "list_all (\<lambda>s. NUL \<notin> set s) (sort sigs2)"
    by (simp_all add: nulFree_def list_all_iff)
  then have "sort sigs1 = sort sigs2"
    using s unfolding encodeSigs_def by (rule parse_sigs)
  then have "mset (sort sigs1) = mset (sort sigs2)" by simp
  then have "mset sigs1 = mset sigs2" by simp
  with m show ?thesis by simp
qed

lemma encodeDirectory_cong:
  "mset sigs1 = mset sigs2 \<Longrightarrow> encodeDirectory m sigs1 = encodeDirectory m sigs2"
  using sort_mset_cong [of sigs1 sigs2] by (simp add: encodeDirectory_def encodeSigs_def)

subsection \<open>Extensions\<close>

lemma extScan_shape: "extScan cs acc = [] \<or> hd (extScan cs acc) = CHR ''.''"
  by (induction cs arbitrary: acc) simp_all

lemma set_extScan: "set (extScan cs acc) \<subseteq> set cs \<union> set acc"
proof (induction cs arbitrary: acc)
  case Nil
  show ?case by simp
next
  case (Cons c cs)
  show ?case using Cons.IH [of "c # acc"] by auto
qed

lemma lowerChar_NUL: "lowerChar c = NUL \<longleftrightarrow> c = NUL"
proof
  assume a: "lowerChar c = NUL"
  show "c = NUL"
  proof (cases "(65::nat) \<le> of_char c \<and> of_char c \<le> (90::nat)")
    case True
    with a have "(of_char (char_of (of_char c + (32::nat))) :: nat) = of_char NUL"
      by (simp add: lowerChar_def)
    with True show ?thesis by (simp add: NUL_def)
  next
    case False
    with a show ?thesis by (simp add: lowerChar_def)
  qed
next
  assume "c = NUL"
  then show "lowerChar c = NUL" by (simp add: lowerChar_def NUL_def)
qed

lemma lowerChar_dot [simp]: "lowerChar (CHR ''.'') = CHR ''.''"
  by (simp add: lowerChar_def)

lemma lowerKeepsShape_ascii: "lowerKeepsShape asciiLower"
proof -
  have "NUL \<notin> set (asciiLower s)" if "NUL \<notin> set s" for s
  proof
    assume "NUL \<in> set (asciiLower s)"
    then obtain c where "c \<in> set s" "lowerChar c = NUL"
      by (auto simp: asciiLower_def)
    with that show False by (simp add: lowerChar_NUL)
  qed
  then show ?thesis by (simp add: lowerKeepsShape_def asciiLower_def)
qed

lemma Ext_shape: "filepath_Ext n = [] \<or> (\<exists>s. filepath_Ext n = CHR ''.'' # s)"
  using extScan_shape [of "rev n" "[]"] by (cases "filepath_Ext n") (auto simp: filepath_Ext_def)

lemma extOf_shape:
  assumes "lowerKeepsShape toLower"
  shows "extOf toLower n \<noteq> [] \<and> (hd (extOf toLower n) = CHR ''.'' \<or> extOf toLower n = ''<noext>'')"
proof (cases "filepath_Ext n = []")
  case True
  with assms show ?thesis by (simp add: extOf_def lowerKeepsShape_def)
next
  case False
  with Ext_shape [of n] obtain s where s: "filepath_Ext n = CHR ''.'' # s" by blast
  from assms have "toLower (CHR ''.'' # s) \<noteq> []" "hd (toLower (CHR ''.'' # s)) = CHR ''.''"
    by (simp_all add: lowerKeepsShape_def)
  then show ?thesis by (simp add: extOf_def s)
qed

lemma extOf_no_NUL:
  assumes "lowerKeepsShape toLower" and "NUL \<notin> set n"
  shows "NUL \<notin> set (extOf toLower n)"
proof -
  have "set (filepath_Ext n) \<subseteq> set n"
    using set_extScan [of "rev n" "[]"] by (simp add: filepath_Ext_def)
  with assms(2) have "NUL \<notin> set (filepath_Ext n)" by auto
  with assms(1) have "NUL \<notin> set (toLower (filepath_Ext n))"
    by (simp add: lowerKeepsShape_def)
  then show ?thesis by (simp add: extOf_def Let_def NUL_def)
qed

lemma wfHistogram_histogram:
  assumes "lowerKeepsShape toLower"
    and "list_all (\<lambda>n. NUL \<notin> set n) names" and "int (length names) < 2 ^ 64"
  shows "wfHistogram (histogram toLower names)"
proof -
  have "int (count_list (map (extOf toLower) names) e) < 2 ^ 64" for e
  proof -
    have "count_list (map (extOf toLower) names) e \<le> length (map (extOf toLower) names)"
      by (rule count_le_length)
    with assms(3) show ?thesis by simp
  qed
  moreover have "NUL \<notin> set e" if "e \<in> set (map (extOf toLower) names)" for e
    using that assms(1,2) by (auto simp: list_all_iff extOf_no_NUL)
  moreover have "e \<noteq> [] \<and> (hd e = CHR ''.'' \<or> e = ''<noext>'')"
    if "e \<in> set (map (extOf toLower) names)" for e
    using that extOf_shape [OF assms(1)] by auto
  ultimately show ?thesis
    unfolding wfHistogram_def keys_histogram lookup_default_histogram by simp
qed

lemma histogram_eq_iff:
  "histogram toLower names1 = histogram toLower names2 \<longleftrightarrow> mset (map (extOf toLower) names1) = mset (map (extOf toLower) names2)"
proof
  assume h: "histogram toLower names1 = histogram toLower names2"
  show "mset (map (extOf toLower) names1) = mset (map (extOf toLower) names2)"
  proof (rule multiset_eqI)
    fix e
    have "int (count_list (map (extOf toLower) names1) e) = int (count_list (map (extOf toLower) names2) e)"
      using lookup_default_histogram [of toLower names1 e] lookup_default_histogram [of toLower names2 e] h by simp
    then show "count (mset (map (extOf toLower) names1)) e = count (mset (map (extOf toLower) names2)) e"
      by (simp only: count_mset of_nat_eq_iff)
  qed
next
  assume m: "mset (map (extOf toLower) names1) = mset (map (extOf toLower) names2)"
  show "histogram toLower names1 = histogram toLower names2"
  proof (rule mapping_eqI)
    fix e
    from m have "set (map (extOf toLower) names1) = set (map (extOf toLower) names2)" by (rule mset_eq_setD)
    then have k: "Mapping.keys (histogram toLower names1) = Mapping.keys (histogram toLower names2)"
      by (simp only: keys_histogram)
    have "count_list (map (extOf toLower) names1) e = count_list (map (extOf toLower) names2) e"
      using m by (metis count_mset)
    then have "Mapping.lookup_default 0 (histogram toLower names1) e = Mapping.lookup_default 0 (histogram toLower names2) e"
      by (simp only: lookup_default_histogram)
    with k show "Mapping.lookup (histogram toLower names1) e = Mapping.lookup (histogram toLower names2) e"
      by (simp add: lookup_via_default [where d = 0])
  qed
qed

subsection \<open>Zero bytes in paths and signatures\<close>

lemma set_splitSlash: "e \<in> set (splitSlash cs cur) \<Longrightarrow> set e \<subseteq> set cs \<union> set cur"
proof (induction cs arbitrary: cur)
  case Nil
  then show ?case by simp
next
  case (Cons c cs)
  show ?case
  proof (cases "c = CHR ''/''")
    case True
    with Cons.prems have "e = rev cur \<or> e \<in> set (splitSlash cs [])" by simp
    then show ?thesis using Cons.IH [of "[]"] by auto
  next
    case False
    with Cons.prems have "e \<in> set (splitSlash cs (c # cur))" by simp
    then show ?thesis using Cons.IH [of "c # cur"] by auto
  qed
qed

lemma set_cleanElems: "e \<in> set (cleanElems rooted es out) \<Longrightarrow> e \<in> set es \<union> set out"
proof (induction es arbitrary: out)
  case Nil
  then show ?case by simp
next
  case (Cons x es)
  show ?case
  proof (cases out)
    case Nil
    with Cons.prems Cons.IH [of "[]"] Cons.IH [of "[x]"] show ?thesis
      by (auto split: if_splits)
  next
    case (Cons t below)
    with Cons.prems Cons.IH [of out] Cons.IH [of "x # out"] Cons.IH [of below] show ?thesis
      by (auto split: if_splits)
  qed
qed

lemma set_joinSlash: "c \<in> set (joinSlash es) \<Longrightarrow> c = CHR ''/'' \<or> (\<exists>e \<in> set es. c \<in> set e)"
  by (induction es rule: joinSlash.induct) auto

lemma Clean_no_NUL:
  assumes "NUL \<notin> set path"
  shows "NUL \<notin> set (filepath_Clean path)"
proof
  assume n: "NUL \<in> set (filepath_Clean path)"
  let ?rooted = "path \<noteq> [] \<and> hd path = CHR ''/''"
  let ?es = "cleanElems ?rooted (splitSlash path []) []"
  from n have "NUL \<in> set (joinSlash ?es)"
    by (auto simp: filepath_Clean_def Let_def NUL_def split: if_splits)
  then obtain e where e: "e \<in> set ?es" "NUL \<in> set e"
    using set_joinSlash [of NUL ?es] by (auto simp: NUL_def)
  from e(1) have "e \<in> set (splitSlash path [])"
    using set_cleanElems [of e ?rooted "splitSlash path []" "[]"] by simp
  then have "set e \<subseteq> set path" using set_splitSlash [of e path "[]"] by simp
  with e(2) assms show False by auto
qed

lemma Join_no_NUL:
  assumes "NUL \<notin> set a" and "NUL \<notin> set b"
  shows "NUL \<notin> set (filepath_Join a b)"
proof -
  have "NUL \<notin> set (a @ ''/'' @ b)" using assms by (simp add: NUL_def)
  then have "NUL \<notin> set (filepath_Clean (a @ ''/'' @ b))" by (rule Clean_no_NUL)
  with assms Clean_no_NUL [of a] Clean_no_NUL [of b] show ?thesis
    by (simp add: filepath_Join_def)
qed

lemma nulFree_entryName: "nulFreeSnapshot e \<Longrightarrow> NUL \<notin> set (entryName e)"
  by (cases e) simp_all

lemma walk_no_NUL:
  assumes "nulFreeSnapshot node" and "NUL \<notin> set path"
    and "d \<in> set (nodes (walkDir toLower node path name level opts))"
  shows "NUL \<notin> set (Signature d)"
  using assms
proof (induction node arbitrary: path name level)
  case (FsFile n)
  have "NUL \<notin> set (errType (notDirError path))" by (simp add: notDirError_def NUL_def)
  with FsFile show ?case by (simp add: signatureForError_NUL)
next
  case (FsUnreadable n e)
  then show ?case by (simp add: signatureForError_NUL)
next
  case (FsDir n ents)
  from FsDir.prems(3) consider
      (root) "d = walkDir toLower (FsDir n ents) path name level opts"
    | (child) e where "e \<in> set (dirEntries ents)" "d \<in> set (nodes (walkChild toLower path level opts e))"
    by (auto simp: nodes_walkDir_FsDir)
  then show ?case
  proof cases
    case root
    then show ?thesis by (simp add: walkDir_FsDir signatureForDirectory_no_NUL)
  next
    case child
    from child(1) have mem: "e \<in> set ents" by (rule dirEntries_subset)
    with FsDir.prems(1) have ne: "nulFreeSnapshot e" by (simp add: list_all_iff)
    then have j: "NUL \<notin> set (filepath_Join path (entryName e))"
      using FsDir.prems(2) by (intro Join_no_NUL nulFree_entryName)
    show ?thesis
    proof (cases "MaxLevel opts \<noteq> 0 \<and> level \<ge> MaxLevel opts")
      case True
      with child(2) have "d = leafNode (entryName e) (filepath_Join path (entryName e)) (level + 1)"
        by (simp add: walkChild_def nodes_leafNode)
      then show ?thesis by (simp add: leafNode_def signatureForLeaf_no_NUL)
    next
      case False
      with child(2) have "d \<in> set (nodes (walkDir toLower e (filepath_Join path (entryName e))
          (entryName e) (level + 1) opts))"
        by (simp add: walkChild_def Let_def)
      from FsDir.IH [OF mem ne j this] show ?thesis .
    qed
  qed
qed

lemma subdir_is_node: "d \<in> set (Subdirs root) \<Longrightarrow> d \<in> set (nodes root)"
  using node_self [of d] by (subst nodes_eq) auto

lemma fileNames_of_entries:
  "set (fileNames ents) \<subseteq> entryName ` set ents" "length (fileNames ents) \<le> length ents"
proof -
  show "set (fileNames ents) \<subseteq> entryName ` set ents"
    by (auto simp: fileNames_def sortedEntries_def)
  have "length (filter (\<lambda>e. \<not> entryIsDir e) (sort_key entryName ents))
      \<le> length (sort_key entryName ents)"
    by (rule length_filter_le)
  then show "length (fileNames ents) \<le> length ents"
    by (simp add: fileNames_def sortedEntries_def)
qed

lemma encoding_of_read_directories:
  assumes "lowerKeepsShape toLower"
    and "nulFreeSnapshot (FsDir n1 ents1)" and "nulFreeSnapshot (FsDir n2 ents2)"
    and "NUL \<notin> set path1" and "NUL \<notin> set path2"
    and "int (length ents1) < 2 ^ 64" and "int (length ents2) < 2 ^ 64"
  shows "encodeDirectory (histogram toLower (fileNames ents1))
           (map Signature (Subdirs (walkDir toLower (FsDir n1 ents1) path1 name1 level1 opts1))) =
         encodeDirectory (histogram toLower (fileNames ents2))
           (map Signature (Subdirs (walkDir toLower (FsDir n2 ents2) path2 name2 level2 opts2)))
         \<longleftrightarrow>
         histogram toLower (fileNames ents1) = histogram toLower (fileNames ents2)
         \<and> mset (map Signature (Subdirs (walkDir toLower (FsDir n1 ents1) path1 name1 level1 opts1))) =
           mset (map Signature (Subdirs (walkDir toLower (FsDir n2 ents2) path2 name2 level2 opts2)))"
proof -
  have wf: "wfHistogram (histogram toLower (fileNames ents))"
    if "nulFreeSnapshot (FsDir n ents)" "int (length ents) < 2 ^ 64" for n ents
  proof (rule wfHistogram_histogram [OF assms(1)])
    from that(1) have "\<forall>e \<in> set ents. NUL \<notin> set (entryName e)"
      by (simp add: list_all_iff nulFree_entryName)
    with fileNames_of_entries(1) [of ents] show "list_all (\<lambda>n. NUL \<notin> set n) (fileNames ents)"
      by (auto simp: list_all_iff)
    from that(2) fileNames_of_entries(2) [of ents] show "int (length (fileNames ents)) < 2 ^ 64"
      by simp
  qed
  have nf: "nulFree (map Signature (Subdirs (walkDir toLower (FsDir n ents) path name level opts)))"
    if "nulFreeSnapshot (FsDir n ents)" "NUL \<notin> set path" for n ents path name level opts
  proof -
    have "NUL \<notin> set (Signature s)"
      if s: "s \<in> set (Subdirs (walkDir toLower (FsDir n ents) path name level opts))" for s
      using walk_no_NUL [OF \<open>nulFreeSnapshot (FsDir n ents)\<close> \<open>NUL \<notin> set path\<close> subdir_is_node [OF s]] .
    then show ?thesis by (simp add: nulFree_def list_all_iff)
  qed
  show ?thesis
    using encodeDirectory_inj [OF wf [OF assms(2,6)] wf [OF assms(3,7)] nf [OF assms(2,4)] nf [OF assms(3,5)]]
      encodeDirectory_cong
    by metis
qed

subsection \<open>Evaluating signatures\<close>

lemma up8: "[0..<8] = [0, 1, 2, 3, 4, 5, 6, 7]"
  by (simp add: upt_rec)

lemma char_of_1: "char_of (1::int) = CHR 0x01"
  by code_simp

lemma char_of_0: "char_of (0::int) = CHR 0x00"
  by code_simp

lemma intToBytes_1:
  "intToBytes 1 = [CHR 0x01, CHR 0x00, CHR 0x00, CHR 0x00, CHR 0x00, CHR 0x00, CHR 0x00, CHR 0x00]"
  by (simp add: intToBytes_def up8 char_of_0 char_of_1)

lemmas eval_extOf = extOf_def filepath_Ext_def asciiLower_def lowerChar_def

lemmas eval_encode = encodeDirectory_def encodeExts_def encodeSigs_def ordered_keys_histogram
  lookup_default_histogram eval_extOf intToBytes_1 NUL_def

lemmas eval_hash = fnv_Write_def fnv_offset64_def fnv_prime64_def hex64_def hexNat.simps hexDigit_def

lemma extOf_txt:
  "extOf asciiLower ''x.txt'' = ''.txt''" "extOf asciiLower ''y.txt'' = ''.txt''"
  "extOf asciiLower ''x.go'' = ''.go''"
  by (simp_all add: eval_extOf)

lemma signature_txt: "signatureForDirectory (histogram asciiLower [''x.txt'']) [] = ''d:e64394207b378751''"
proof -
  have "encodeDirectory (histogram asciiLower [''x.txt'']) [] =
      ''files:.txt'' @ [CHR 0x00, CHR 0x01, CHR 0x00, CHR 0x00, CHR 0x00, CHR 0x00, CHR 0x00, CHR 0x00, CHR 0x00]
        @ ''dirs:''"
    by (simp add: eval_encode)
  then show ?thesis by (simp add: signatureForDirectory_encode eval_hash)
qed

lemma fileNames_single: "fileNames [FsFile n] = [n]"
  by (simp add: fileNames_def sortedEntries_def)

lemma extOf_twins:
  "extOf asciiLower ''f.nfojjbicobfhhomb'' = ''.nfojjbicobfhhomb''"
  "extOf asciiLower ''f.mdjldpdnhphpphal'' = ''.mdjldpdnhphpphal''"
  by (simp_all add: eval_extOf)

lemma signature_twinA:
  "signatureForDirectory (histogram asciiLower [''f.nfojjbicobfhhomb'']) [] = ''d:5e1ad0869e66cde5''"
proof -
  have "encodeDirectory (histogram asciiLower [''f.nfojjbicobfhhomb'']) [] =
      ''files:.nfojjbicobfhhomb''
        @ [CHR 0x00, CHR 0x01, CHR 0x00, CHR 0x00, CHR 0x00, CHR 0x00, CHR 0x00, CHR 0x00, CHR 0x00]
        @ ''dirs:''"
    by (simp add: eval_encode)
  then show ?thesis by (simp add: signatureForDirectory_encode eval_hash)
qed

lemma signature_twinB:
  "signatureForDirectory (histogram asciiLower [''f.mdjldpdnhphpphal'']) [] = ''d:5e1ad0869e66cde5''"
proof -
  have "encodeDirectory (histogram asciiLower [''f.mdjldpdnhphpphal'']) [] =
      ''files:.mdjldpdnhphpphal''
        @ [CHR 0x00, CHR 0x01, CHR 0x00, CHR 0x00, CHR 0x00, CHR 0x00, CHR 0x00, CHR 0x00, CHR 0x00]
        @ ''dirs:''"
    by (simp add: eval_encode)
  then show ?thesis by (simp add: signatureForDirectory_encode eval_hash)
qed

section \<open>The claims\<close>

subsection \<open>The depth limit\<close>

text \<open>
  Claim C1, as stated, fails on the code. The claim puts the marker nodes at depth \<open>N\<close>.
  The loop of \<^verbatim>\<open>walkDir\<close> compares the level of the directory it is reading with
  \<^verbatim>\<open>MaxLevel\<close>, so the root (level 0) under \<^verbatim>\<open>MaxLevel = 1\<close> still walks its
  subdirectories: in \<^verbatim>\<open>root/{a/{x.txt}, b/{y.txt}}\<close> the children \<open>a\<close> and \<open>b\<close> are
  read, each holds its file, and neither is a marker.
\<close>

theorem depth_limit_counterexample:
  "Walk asciiLower (Inr scenarioRoot) ''root'' scenarioOpts = Inr scenarioTree
   \<and> map Name (Subdirs scenarioTree) = [''a'', ''b'']
   \<and> map Files (Subdirs scenarioTree) = [[FileEntry ''x.txt''], [FileEntry ''y.txt'']]
   \<and> map isLeafMarker (Subdirs scenarioTree) = [False, False]
   \<and> TotalFiles scenarioTree = 2"
  by (simp add: scenarioTree_def scenarioRoot_def scenarioOpts_def Walk_FsDir eval_walk isLeafMarker_def)

text \<open>
  Claim C1, amended. With \<^verbatim>\<open>MaxLevel = N > 0\<close>, a directory read at a level below \<open>N\<close>
  has every subdirectory walked, and a directory read at level \<open>N\<close> or more has every
  subdirectory recorded as a marker built from the entry name and the joined path
  alone. In a tree walked from level 0 no node lies deeper than \<open>N + 1\<close>, and the markers
  are exactly the nodes at level \<open>N + 1\<close>: directories down to depth \<open>N\<close> are read. With
  \<^verbatim>\<open>MaxLevel = 0\<close> every subdirectory is walked and no node is a marker. In the
  scenario the root has the two children \<open>a\<close> and \<open>b\<close>, each with its file and no
  subdirectory, and \<^verbatim>\<open>TotalDirs = 2\<close>.
\<close>

theorem depth_limit:
  "(0 < MaxLevel opts \<and> level < MaxLevel opts \<longrightarrow>
      Subdirs (walkDir toLower (FsDir n ents) path name level opts) =
        map (\<lambda>e. walkDir toLower e (filepath_Join path (entryName e)) (entryName e) (level + 1) opts)
          (dirEntries ents))
   \<and> (0 < MaxLevel opts \<and> MaxLevel opts \<le> level \<longrightarrow>
      Subdirs (walkDir toLower (FsDir n ents) path name level opts) =
        map (\<lambda>e. leafNode (entryName e) (filepath_Join path (entryName e)) (level + 1))
          (dirEntries ents))
   \<and> (MaxLevel opts = 0 \<longrightarrow>
      Subdirs (walkDir toLower (FsDir n ents) path name level opts) =
        map (\<lambda>e. walkDir toLower e (filepath_Join path (entryName e)) (entryName e) (level + 1) opts)
          (dirEntries ents))
   \<and> (0 < MaxLevel opts \<and> d \<in> set (nodes (walkDir toLower node path name 0 opts)) \<longrightarrow>
      0 \<le> Level d \<and> Level d \<le> MaxLevel opts + 1
      \<and> (isLeafMarker d \<longleftrightarrow> Level d = MaxLevel opts + 1))
   \<and> (MaxLevel opts = 0 \<and> d \<in> set (nodes (walkDir toLower node path name level opts)) \<longrightarrow>
      \<not> isLeafMarker d)
   \<and> map Name (Subdirs scenarioTree) = [''a'', ''b'']
   \<and> map Files (Subdirs scenarioTree) = [[FileEntry ''x.txt''], [FileEntry ''y.txt'']]
   \<and> map Subdirs (Subdirs scenarioTree) = [[], []]
   \<and> TotalDirs scenarioTree = 2"
proof -
  have a: "0 < MaxLevel opts \<and> level < MaxLevel opts \<longrightarrow>
      Subdirs (walkDir toLower (FsDir n ents) path name level opts) =
        map (\<lambda>e. walkDir toLower e (filepath_Join path (entryName e)) (entryName e) (level + 1) opts)
          (dirEntries ents)"
    using subdirs_expanded [of opts level toLower n ents path name] by simp
  have b: "0 < MaxLevel opts \<and> MaxLevel opts \<le> level \<longrightarrow>
      Subdirs (walkDir toLower (FsDir n ents) path name level opts) =
        map (\<lambda>e. leafNode (entryName e) (filepath_Join path (entryName e)) (level + 1))
          (dirEntries ents)"
    using subdirs_markers [of opts level toLower n ents path name] by simp
  have c: "MaxLevel opts = 0 \<longrightarrow>
      Subdirs (walkDir toLower (FsDir n ents) path name level opts) =
        map (\<lambda>e. walkDir toLower e (filepath_Join path (entryName e)) (entryName e) (level + 1) opts)
          (dirEntries ents)"
    using subdirs_expanded [of opts level toLower n ents path name] by simp
  have d: "0 < MaxLevel opts \<and> d \<in> set (nodes (walkDir toLower node path name 0 opts)) \<longrightarrow>
      0 \<le> Level d \<and> Level d \<le> MaxLevel opts + 1
      \<and> (isLeafMarker d \<longleftrightarrow> Level d = MaxLevel opts + 1)"
    using depth_nodes [of opts 0 d toLower node path name] by simp
  have e: "MaxLevel opts = 0 \<and> d \<in> set (nodes (walkDir toLower node path name level opts)) \<longrightarrow>
      \<not> isLeafMarker d"
    using unlimited_nodes [of opts d toLower node path name level] by simp
  have f: "map Name (Subdirs scenarioTree) = [''a'', ''b'']
   \<and> map Files (Subdirs scenarioTree) = [[FileEntry ''x.txt''], [FileEntry ''y.txt'']]
   \<and> map Subdirs (Subdirs scenarioTree) = [[], []]
   \<and> TotalDirs scenarioTree = 2"
    by (simp add: scenarioTree_def scenarioRoot_def scenarioOpts_def eval_walk)
  from a b c d e f show ?thesis by blast
qed

text \<open>
  Claim C1, witness: the limit 1 at level 0, where both subdirectories are walked, and
  at level 1, where the subdirectory becomes a marker.
\<close>

theorem depth_limit_witness:
  "0 < MaxLevel scenarioOpts \<and> (0::int) < MaxLevel scenarioOpts
   \<and> Subdirs (walkDir asciiLower scenarioRoot ''root'' ''root'' 0 scenarioOpts) =
       [walkDir asciiLower (FsDir ''a'' [FsFile ''x.txt'']) ''root/a'' ''a'' 1 scenarioOpts,
        walkDir asciiLower (FsDir ''b'' [FsFile ''y.txt'']) ''root/b'' ''b'' 1 scenarioOpts]
   \<and> MaxLevel scenarioOpts \<le> 1
   \<and> Subdirs (walkDir asciiLower (FsDir ''a'' [FsDir ''deep'' [FsFile ''z'']]) ''root/a'' ''a'' 1 scenarioOpts) =
       [leafNode ''deep'' ''root/a/deep'' 2]"
  using depth_limit [where toLower = asciiLower and opts = scenarioOpts and level = 0 and n = "''root''"
      and ents = "[FsDir ''a'' [FsFile ''x.txt''], FsDir ''b'' [FsFile ''y.txt'']]"
      and path = "''root''" and name = "''root''"]
    depth_limit [where toLower = asciiLower and opts = scenarioOpts and level = 1 and n = "''a''"
      and ents = "[FsDir ''deep'' [FsFile ''z'']]"
      and path = "''root/a''" and name = "''a''"]
  by (simp add: scenarioOpts_def scenarioRoot_def dirEntries_def sortedEntries_def
      filepath_Join_def filepath_Clean_def)

subsection \<open>What a signature determines\<close>

text \<open>
  Claim C2, as stated, fails on the code in one direction: equal signatures do not give
  equal histograms. A signature is \<^verbatim>\<open>d:\<close> and the hexadecimal digits of a 64-bit hash.
  The directory \<^verbatim>\<open>d\<close> holding the one file \<^verbatim>\<open>f.nfojjbicobfhhomb\<close> and the directory
  \<^verbatim>\<open>d\<close> holding the one file \<^verbatim>\<open>f.mdjldpdnhphpphal\<close> have no subdirectory and different
  extension histograms, and both get the signature \<^verbatim>\<open>d:5e1ad0869e66cde5\<close>. Both names
  are lower-case ASCII, where \<^verbatim>\<open>strings.ToLower\<close> changes nothing.
\<close>

theorem signature_equality_counterexample:
  "Signature (walkDir asciiLower twinA ''d'' ''d'' 0 unlimitedOpts) = ''d:5e1ad0869e66cde5''
   \<and> Signature (walkDir asciiLower twinB ''d'' ''d'' 0 unlimitedOpts) = ''d:5e1ad0869e66cde5''
   \<and> Subdirs (walkDir asciiLower twinA ''d'' ''d'' 0 unlimitedOpts) = []
   \<and> Subdirs (walkDir asciiLower twinB ''d'' ''d'' 0 unlimitedOpts) = []
   \<and> map (extOf asciiLower) (fileNames [FsFile ''f.nfojjbicobfhhomb'']) = [''.nfojjbicobfhhomb'']
   \<and> map (extOf asciiLower) (fileNames [FsFile ''f.mdjldpdnhphpphal'']) = [''.mdjldpdnhphpphal'']
   \<and> histogram asciiLower (fileNames [FsFile ''f.nfojjbicobfhhomb'']) \<noteq>
       histogram asciiLower (fileNames [FsFile ''f.mdjldpdnhphpphal''])"
proof -
  have sub: "Subdirs (walkDir asciiLower twinA ''d'' ''d'' 0 unlimitedOpts) = []"
      "Subdirs (walkDir asciiLower twinB ''d'' ''d'' 0 unlimitedOpts) = []"
    by (simp_all add: twinA_def twinB_def walkDir_FsDir dirEntries_def sortedEntries_def)
  have a: "Signature (walkDir asciiLower twinA ''d'' ''d'' 0 unlimitedOpts) = ''d:5e1ad0869e66cde5''"
    unfolding twinA_def Signature_walkDir_FsDir fileNames_single
    using sub(1) signature_twinA by (simp add: twinA_def signatureForDirectory_def)
  have b: "Signature (walkDir asciiLower twinB ''d'' ''d'' 0 unlimitedOpts) = ''d:5e1ad0869e66cde5''"
    unfolding twinB_def Signature_walkDir_FsDir fileNames_single
    using sub(2) signature_twinB by (simp add: twinB_def signatureForDirectory_def)
  have e: "map (extOf asciiLower) (fileNames [FsFile ''f.nfojjbicobfhhomb'']) = [''.nfojjbicobfhhomb'']"
      "map (extOf asciiLower) (fileNames [FsFile ''f.mdjldpdnhphpphal'']) = [''.mdjldpdnhphpphal'']"
    by (simp_all add: fileNames_single extOf_twins)
  have h: "histogram asciiLower (fileNames [FsFile ''f.nfojjbicobfhhomb'']) \<noteq>
       histogram asciiLower (fileNames [FsFile ''f.mdjldpdnhphpphal''])"
    unfolding histogram_eq_iff e by simp
  from a b sub e h show ?thesis by simp
qed

text \<open>
  Claim C2, amended. Directories with the same extension histogram and the same multiset
  of child signatures have the same signature. The signature is \<^verbatim>\<open>d:\<close> followed by the
  hexadecimal FNV-1a hash of a byte encoding of the histogram and the child signatures,
  so two signatures are equal exactly when the hashes of the two encodings are equal.
  The signature of a directory that was read is the one of the histogram of all its file
  names and of its subdirectories, and two histograms are equal exactly when the file
  names give the same multiset of lower-cased extensions, whatever the names. The
  encoding itself loses nothing on directories that were read: for two directories of a
  snapshot as a filesystem gives it (no zero byte in a name, in the path walked or in
  the type name of an error, fewer than \<open>2 ^ 64\<close> entries in a directory), the two
  encodings are equal exactly when the histograms are equal and the child signatures
  form the same multiset. The lowering function is a parameter of which only
  \<open>lowerKeepsShape\<close> is used, so the statement holds for \<^verbatim>\<open>strings.ToLower\<close>.
\<close>

theorem signature_equality:
  "(m1 = m2 \<and> mset (map Signature subs1) = mset (map Signature subs2) \<longrightarrow>
      signatureForDirectory m1 subs1 = signatureForDirectory m2 subs2)
   \<and> signatureForDirectory m1 subs1 =
       ''d:'' @ hex64 (fnv_Write fnv_offset64 (encodeDirectory m1 (map Signature subs1)))
   \<and> (signatureForDirectory m1 subs1 = signatureForDirectory m2 subs2 \<longleftrightarrow>
        fnv_Write fnv_offset64 (encodeDirectory m1 (map Signature subs1)) =
        fnv_Write fnv_offset64 (encodeDirectory m2 (map Signature subs2)))
   \<and> Signature (walkDir toLower (FsDir n ents) path name level opts) =
       signatureForDirectory (histogram toLower (fileNames ents))
         (Subdirs (walkDir toLower (FsDir n ents) path name level opts))
   \<and> (histogram toLower names1 = histogram toLower names2 \<longleftrightarrow>
        mset (map (extOf toLower) names1) = mset (map (extOf toLower) names2))
   \<and> (lowerKeepsShape toLower
        \<and> nulFreeSnapshot (FsDir n1 ents1) \<and> nulFreeSnapshot (FsDir n2 ents2)
        \<and> NUL \<notin> set path1 \<and> NUL \<notin> set path2
        \<and> int (length ents1) < 2 ^ 64 \<and> int (length ents2) < 2 ^ 64 \<longrightarrow>
        (encodeDirectory (histogram toLower (fileNames ents1))
           (map Signature (Subdirs (walkDir toLower (FsDir n1 ents1) path1 name1 level1 opts1))) =
         encodeDirectory (histogram toLower (fileNames ents2))
           (map Signature (Subdirs (walkDir toLower (FsDir n2 ents2) path2 name2 level2 opts2)))
         \<longleftrightarrow>
         histogram toLower (fileNames ents1) = histogram toLower (fileNames ents2)
         \<and> mset (map Signature (Subdirs (walkDir toLower (FsDir n1 ents1) path1 name1 level1 opts1))) =
           mset (map Signature (Subdirs (walkDir toLower (FsDir n2 ents2) path2 name2 level2 opts2)))))"
proof (intro conjI impI)
  show "signatureForDirectory m1 subs1 = signatureForDirectory m2 subs2"
    if "m1 = m2 \<and> mset (map Signature subs1) = mset (map Signature subs2)"
    using that encodeDirectory_cong [of "map Signature subs1" "map Signature subs2" m2]
    by (simp add: signatureForDirectory_encode)
  show "signatureForDirectory m1 subs1 =
       ''d:'' @ hex64 (fnv_Write fnv_offset64 (encodeDirectory m1 (map Signature subs1)))"
    by (rule signatureForDirectory_encode)
  show "signatureForDirectory m1 subs1 = signatureForDirectory m2 subs2 \<longleftrightarrow>
        fnv_Write fnv_offset64 (encodeDirectory m1 (map Signature subs1)) =
        fnv_Write fnv_offset64 (encodeDirectory m2 (map Signature subs2))"
    by (rule signatureForDirectory_eq_iff)
  show "Signature (walkDir toLower (FsDir n ents) path name level opts) =
       signatureForDirectory (histogram toLower (fileNames ents))
         (Subdirs (walkDir toLower (FsDir n ents) path name level opts))"
    by (rule Signature_walkDir_FsDir)
  show "histogram toLower names1 = histogram toLower names2 \<longleftrightarrow>
        mset (map (extOf toLower) names1) = mset (map (extOf toLower) names2)"
    by (rule histogram_eq_iff)
  show "encodeDirectory (histogram toLower (fileNames ents1))
           (map Signature (Subdirs (walkDir toLower (FsDir n1 ents1) path1 name1 level1 opts1))) =
         encodeDirectory (histogram toLower (fileNames ents2))
           (map Signature (Subdirs (walkDir toLower (FsDir n2 ents2) path2 name2 level2 opts2)))
         \<longleftrightarrow>
         histogram toLower (fileNames ents1) = histogram toLower (fileNames ents2)
         \<and> mset (map Signature (Subdirs (walkDir toLower (FsDir n1 ents1) path1 name1 level1 opts1))) =
           mset (map Signature (Subdirs (walkDir toLower (FsDir n2 ents2) path2 name2 level2 opts2)))"
    if "lowerKeepsShape toLower
        \<and> nulFreeSnapshot (FsDir n1 ents1) \<and> nulFreeSnapshot (FsDir n2 ents2)
        \<and> NUL \<notin> set path1 \<and> NUL \<notin> set path2
        \<and> int (length ents1) < 2 ^ 64 \<and> int (length ents2) < 2 ^ 64"
    using that by (intro encoding_of_read_directories) blast+
qed

text \<open>
  Claim C2, witness: \<^verbatim>\<open>x.txt\<close> and \<^verbatim>\<open>y.txt\<close> give one histogram and one signature, whose
  value is the FNV-1a hash of the bytes written; the directories \<^verbatim>\<open>d/{x.txt}\<close> and
  \<^verbatim>\<open>d/{x.go}\<close> have different histograms and different encodings.
\<close>

theorem signature_equality_witness:
  "histogram asciiLower [''x.txt''] = histogram asciiLower [''y.txt'']
   \<and> signatureForDirectory (histogram asciiLower [''x.txt'']) [] =
       signatureForDirectory (histogram asciiLower [''y.txt'']) []
   \<and> signatureForDirectory (histogram asciiLower [''x.txt'']) [] = ''d:e64394207b378751''
   \<and> lowerKeepsShape asciiLower
   \<and> nulFreeSnapshot (FsDir ''d'' [FsFile ''x.txt'']) \<and> nulFreeSnapshot (FsDir ''d'' [FsFile ''x.go''])
   \<and> NUL \<notin> set ''d''
   \<and> int (length [FsFile ''x.txt'']) < 2 ^ 64 \<and> int (length [FsFile ''x.go'']) < 2 ^ 64
   \<and> histogram asciiLower (fileNames [FsFile ''x.txt'']) \<noteq> histogram asciiLower (fileNames [FsFile ''x.go''])
   \<and> encodeDirectory (histogram asciiLower (fileNames [FsFile ''x.txt'']))
         (map Signature (Subdirs (walkDir asciiLower (FsDir ''d'' [FsFile ''x.txt'']) ''d'' ''d'' 0 unlimitedOpts))) \<noteq>
       encodeDirectory (histogram asciiLower (fileNames [FsFile ''x.go'']))
         (map Signature (Subdirs (walkDir asciiLower (FsDir ''d'' [FsFile ''x.go'']) ''d'' ''d'' 0 unlimitedOpts)))"
proof -
  have h: "histogram asciiLower [''x.txt''] = histogram asciiLower [''y.txt'']"
    using signature_equality [where toLower = asciiLower and ?names1.0 = "[''x.txt'']"
        and ?names2.0 = "[''y.txt'']"]
    by (simp add: extOf_txt)
  have s: "signatureForDirectory (histogram asciiLower [''x.txt'']) [] =
      signatureForDirectory (histogram asciiLower [''y.txt'']) []"
    using signature_equality [where toLower = asciiLower and ?m1.0 = "histogram asciiLower [''x.txt'']"
        and ?m2.0 = "histogram asciiLower [''y.txt'']" and ?subs1.0 = "[]" and ?subs2.0 = "[]",
        THEN conjunct1] h
    by simp
  have k: "lowerKeepsShape asciiLower" by (rule lowerKeepsShape_ascii)
  have n: "nulFreeSnapshot (FsDir ''d'' [FsFile ''x.txt''])" "nulFreeSnapshot (FsDir ''d'' [FsFile ''x.go''])"
      "NUL \<notin> set ''d''"
    by (simp_all add: NUL_def)
  have l: "int (length [FsFile ''x.txt'']) < 2 ^ 64" "int (length [FsFile ''x.go'']) < 2 ^ 64"
    by simp_all
  have d: "histogram asciiLower (fileNames [FsFile ''x.txt'']) \<noteq> histogram asciiLower (fileNames [FsFile ''x.go''])"
    using signature_equality [where toLower = asciiLower and ?names1.0 = "fileNames [FsFile ''x.txt'']"
        and ?names2.0 = "fileNames [FsFile ''x.go'']"]
    by (simp add: fileNames_single extOf_txt)
  have e: "encodeDirectory (histogram asciiLower (fileNames [FsFile ''x.txt'']))
         (map Signature (Subdirs (walkDir asciiLower (FsDir ''d'' [FsFile ''x.txt'']) ''d'' ''d'' 0 unlimitedOpts))) \<noteq>
       encodeDirectory (histogram asciiLower (fileNames [FsFile ''x.go'']))
         (map Signature (Subdirs (walkDir asciiLower (FsDir ''d'' [FsFile ''x.go'']) ''d'' ''d'' 0 unlimitedOpts)))"
    using signature_equality [where toLower = asciiLower
        and ?n1.0 = "''d''" and ?ents1.0 = "[FsFile ''x.txt'']" and ?path1.0 = "''d''"
        and ?name1.0 = "''d''" and ?level1.0 = 0 and ?opts1.0 = unlimitedOpts
        and ?n2.0 = "''d''" and ?ents2.0 = "[FsFile ''x.go'']" and ?path2.0 = "''d''"
        and ?name2.0 = "''d''" and ?level2.0 = 0 and ?opts2.0 = unlimitedOpts] k n l d
    by blast
  from h s signature_txt k n l d e show ?thesis by blast
qed

subsection \<open>Signatures and the display limit\<close>

text \<open>
  Claim C3. Two walks of the same snapshot whose options differ only in \<^verbatim>\<open>MaxFiles\<close>
  produce the same directories with the same signatures, node by node. The signature of
  a directory that was read is computed from the histogram of the extensions of all its
  files, which counts every file of the directory whether it is retained or hidden.
\<close>

theorem signature_ignores_display_limit:
  "map (\<lambda>d. (Path d, Signature d)) (nodes (walkDir toLower node path name level (opts\<lparr>MaxFiles := m1\<rparr>))) =
   map (\<lambda>d. (Path d, Signature d)) (nodes (walkDir toLower node path name level (opts\<lparr>MaxFiles := m2\<rparr>)))
   \<and> Signature (walkDir toLower (FsDir n ents) path name level opts) =
       signatureForDirectory (histogram toLower (fileNames ents))
         (Subdirs (walkDir toLower (FsDir n ents) path name level opts))
   \<and> Mapping.lookup_default 0 (histogram toLower (fileNames ents)) ext =
       int (count_list (map (extOf toLower) (fileNames ents)) ext)
   \<and> Mapping.keys (histogram toLower (fileNames ents)) = set (map (extOf toLower) (fileNames ents))
   \<and> int (length (fileNames ents)) = ImmediateFileCount (walkDir toLower (FsDir n ents) path name level opts)"
  using MaxFiles_irrelevant [where node = node and path = path and name = name and level = level
      and opts = opts and ?m1.0 = m1 and ?m2.0 = m2]
  by (simp add: Signature_walkDir_FsDir lookup_default_histogram keys_histogram walkDir_FsDir
      del: set_map)

subsection \<open>Counts\<close>

text \<open>
  Claim C4. In every node of a tree that \<^verbatim>\<open>walkDir\<close> returns (a tree that \<^verbatim>\<open>Walk\<close>
  returns is the tree of \<^verbatim>\<open>walkDir\<close> on the root at level 0), whatever the options,
  \<^verbatim>\<open>TotalFiles\<close> is the number of retained plus hidden files of the node plus the sum of
  \<^verbatim>\<open>TotalFiles\<close> of its children, and \<^verbatim>\<open>TotalDirs\<close> is the number of children plus the
  sum of \<^verbatim>\<open>TotalDirs\<close> of the children; the immediate counts are the same two numbers
  without the sums.
\<close>

theorem count_invariant:
  assumes "d \<in> set (nodes (walkDir toLower node path name level opts))"
  shows "TotalFiles d = (int (length (Files d)) + HiddenFiles d) + sum_list (map TotalFiles (Subdirs d))
       \<and> TotalDirs d = int (length (Subdirs d)) + sum_list (map TotalDirs (Subdirs d))
       \<and> ImmediateFileCount d = int (length (Files d)) + HiddenFiles d
       \<and> ImmediateDirCount d = int (length (Subdirs d))"
  by (rule walk_nodes_induct [OF _ _ _ assms]) (simp_all add: leafNode_def walkDir_FsDir)

text \<open>
  Claim C4, witness: the directory \<open>scripts\<close> of the end-to-end scenario, walked with
  two files shown, keeps two files, hides one and counts three.
\<close>

theorem count_invariant_witness:
  "scriptsNode \<in> set (nodes (walkDir asciiLower endToEndRoot ''root'' ''root'' 0 endToEndOpts))
   \<and> Files scriptsNode = [FileEntry ''x.sh'', FileEntry ''y.sh'']
   \<and> HiddenFiles scriptsNode = 1
   \<and> TotalFiles scriptsNode = (2 + 1) + 0
   \<and> TotalDirs scriptsNode = 0 + 0"
proof -
  have h: "scriptsNode \<in> set (nodes (walkDir asciiLower endToEndRoot ''root'' ''root'' 0 endToEndOpts))"
    using scriptsNode_in_tree by (simp add: endToEndTree_def)
  have "Files scriptsNode = [FileEntry ''x.sh'', FileEntry ''y.sh'']"
    and "HiddenFiles scriptsNode = 1" and "Subdirs scriptsNode = []"
    by (simp_all add: scriptsNode_def endToEndOpts_def eval_walk)
  with h count_invariant [OF h] show ?thesis by simp
qed

subsection \<open>Truncation of the file list\<close>

text \<open>
  Claim C5. In every node of a walked tree, \<^verbatim>\<open>HiddenFiles\<close> is
  \<open>max 0 (ImmediateFileCount - MaxFiles)\<close> when \<^verbatim>\<open>MaxFiles\<close> is positive, and 0 when
  \<^verbatim>\<open>MaxFiles\<close> is 0 (the cap is then \<^verbatim>\<open>math.MaxInt\<close>, which no Go slice exceeds). The
  retained files are the first files up to the cap; every file counts in
  \<^verbatim>\<open>ImmediateFileCount\<close> and in the histogram from which the signature is computed.
\<close>

theorem truncation_invariant:
  "(d \<in> set (nodes (walkDir toLower node path name level opts)) \<longrightarrow>
      (0 < MaxFiles opts \<longrightarrow> HiddenFiles d = max 0 (ImmediateFileCount d - MaxFiles opts))
      \<and> (MaxFiles opts = 0 \<and> ImmediateFileCount d \<le> MaxInt \<longrightarrow> HiddenFiles d = 0)
      \<and> ImmediateFileCount d = int (length (Files d)) + HiddenFiles d)
   \<and> Files (walkDir toLower (FsDir n ents) path name level opts) =
       take (nat (effectiveMaxFiles opts)) (map FileEntry (fileNames ents))
   \<and> ImmediateFileCount (walkDir toLower (FsDir n ents) path name level opts) = int (length (fileNames ents))
   \<and> Signature (walkDir toLower (FsDir n ents) path name level opts) =
       signatureForDirectory (histogram toLower (fileNames ents))
         (Subdirs (walkDir toLower (FsDir n ents) path name level opts))
   \<and> Mapping.lookup_default 0 (histogram toLower (fileNames ents)) ext =
       int (count_list (map (extOf toLower) (fileNames ents)) ext)"
proof (intro conjI impI)
  assume d: "d \<in> set (nodes (walkDir toLower node path name level opts))"
  note t = truncation_nodes [OF d]
  show "ImmediateFileCount d = int (length (Files d)) + HiddenFiles d"
    using t by blast
  show "HiddenFiles d = max 0 (ImmediateFileCount d - MaxFiles opts)" if "0 < MaxFiles opts"
    using t that by blast
  show "HiddenFiles d = 0" if "MaxFiles opts = 0 \<and> ImmediateFileCount d \<le> MaxInt"
    using t that by blast
next
  show "Files (walkDir toLower (FsDir n ents) path name level opts) =
       take (nat (effectiveMaxFiles opts)) (map FileEntry (fileNames ents))"
    by (simp add: walkDir_FsDir)
  show "ImmediateFileCount (walkDir toLower (FsDir n ents) path name level opts) = int (length (fileNames ents))"
    by (simp add: walkDir_FsDir)
  show "Signature (walkDir toLower (FsDir n ents) path name level opts) =
       signatureForDirectory (histogram toLower (fileNames ents))
         (Subdirs (walkDir toLower (FsDir n ents) path name level opts))"
    by (rule Signature_walkDir_FsDir)
  show "Mapping.lookup_default 0 (histogram toLower (fileNames ents)) ext =
       int (count_list (map (extOf toLower) (fileNames ents)) ext)"
    by (rule lookup_default_histogram)
qed

text \<open>
  Claim C5, witness: \<open>scripts\<close> with three files and a cap of two keeps \<open>x.sh\<close> and
  \<open>y.sh\<close> and hides one.
\<close>

theorem truncation_invariant_witness:
  "scriptsNode \<in> set (nodes (walkDir asciiLower endToEndRoot ''root'' ''root'' 0 endToEndOpts))
   \<and> 0 < MaxFiles endToEndOpts
   \<and> ImmediateFileCount scriptsNode = 3
   \<and> HiddenFiles scriptsNode = 1
   \<and> Files scriptsNode = [FileEntry ''x.sh'', FileEntry ''y.sh'']"
proof -
  have h: "scriptsNode \<in> set (nodes (walkDir asciiLower endToEndRoot ''root'' ''root'' 0 endToEndOpts))"
    using scriptsNode_in_tree by (simp add: endToEndTree_def)
  have m: "0 < MaxFiles endToEndOpts" "MaxFiles endToEndOpts = 2"
    by (simp_all add: endToEndOpts_def)
  have i: "ImmediateFileCount scriptsNode = 3"
    and f: "Files scriptsNode = [FileEntry ''x.sh'', FileEntry ''y.sh'']"
    by (simp_all add: scriptsNode_def endToEndOpts_def eval_walk)
  from truncation_invariant [where d = scriptsNode and toLower = asciiLower and node = endToEndRoot
      and path = "''root''" and name = "''root''" and level = 0 and opts = endToEndOpts] h m i
  have "HiddenFiles scriptsNode = 1" by simp
  with h m i f show ?thesis by simp
qed

subsection \<open>Grouping\<close>

text \<open>
  Claim C6. \<^verbatim>\<open>GroupIdentical\<close> files every directory under its key, which is its
  signature, or the fallback made of name and level when the signature is empty. It
  returns one group for each key, the groups in the order in which the keys first occur
  in the input, the members of a group in input order. For directories whose signatures
  are not empty, and the nodes of a walked tree are such, this is the partition by equal
  signature. Siblings \<open>a, b, c, d\<close> with signatures \<open>s1, s2, s1, s1\<close> give the group of
  \<open>s1\<close> with \<open>a, c, d\<close> and then the group of \<open>s2\<close> with \<open>b\<close>.
\<close>

theorem grouping_stable:
  "GroupIdentical dirs =
     map (\<lambda>s. DirGroup s (filter (\<lambda>d. groupKey d = s) (nonNil dirs)))
       (firstOccurrences (map groupKey (nonNil dirs)))
   \<and> ((\<forall>d \<in> set (nonNil dirs). Signature d \<noteq> []) \<longrightarrow>
        GroupIdentical dirs =
          map (\<lambda>s. DirGroup s (filter (\<lambda>d. Signature d = s) (nonNil dirs)))
            (firstOccurrences (map Signature (nonNil dirs))))
   \<and> (Signature a = s1 \<and> Signature b = s2 \<and> Signature c = s1 \<and> Signature d = s1
        \<and> s1 \<noteq> s2 \<and> s1 \<noteq> [] \<and> s2 \<noteq> [] \<longrightarrow>
        GroupIdentical [Some a, Some b, Some c, Some d] =
          [DirGroup s1 [a, c, d], DirGroup s2 [b]])
   \<and> (n \<in> set (nodes (walkDir toLower node path name level opts)) \<longrightarrow> Signature n \<noteq> [])"
proof (intro conjI impI)
  show "GroupIdentical dirs =
     map (\<lambda>s. DirGroup s (filter (\<lambda>d. groupKey d = s) (nonNil dirs)))
       (firstOccurrences (map groupKey (nonNil dirs)))"
    by (rule GroupIdentical_eq)
next
  assume ne: "\<forall>d \<in> set (nonNil dirs). Signature d \<noteq> []"
  then have k: "map groupKey (nonNil dirs) = map Signature (nonNil dirs)"
    by (simp add: groupKey_def)
  have f: "filter (\<lambda>d. groupKey d = s) (nonNil dirs) = filter (\<lambda>d. Signature d = s) (nonNil dirs)" for s
    using ne by (intro filter_cong) (simp_all add: groupKey_def)
  show "GroupIdentical dirs =
          map (\<lambda>s. DirGroup s (filter (\<lambda>d. Signature d = s) (nonNil dirs)))
            (firstOccurrences (map Signature (nonNil dirs)))"
    unfolding GroupIdentical_eq k f ..
next
  assume "Signature a = s1 \<and> Signature b = s2 \<and> Signature c = s1 \<and> Signature d = s1
        \<and> s1 \<noteq> s2 \<and> s1 \<noteq> [] \<and> s2 \<noteq> []"
  then show "GroupIdentical [Some a, Some b, Some c, Some d] =
          [DirGroup s1 [a, c, d], DirGroup s2 [b]]"
    by (auto simp: GroupIdentical_eq groupKey_def)
next
  assume "n \<in> set (nodes (walkDir toLower node path name level opts))"
  then show "Signature n \<noteq> []" by (rule walk_signature_nonempty)
qed

text \<open>Claim C6, witness: four nodes with the signatures \<open>s1, s2, s1, s1\<close>.\<close>

theorem grouping_stable_witness:
  "map Signature (nonNil [Some (sigNode ''A'' ''s1''), Some (sigNode ''B'' ''s2''),
        Some (sigNode ''C'' ''s1''), Some (sigNode ''D'' ''s1'')]) = [''s1'', ''s2'', ''s1'', ''s1'']
   \<and> GroupIdentical [Some (sigNode ''A'' ''s1''), Some (sigNode ''B'' ''s2''),
        Some (sigNode ''C'' ''s1''), Some (sigNode ''D'' ''s1'')] =
       [DirGroup ''s1'' [sigNode ''A'' ''s1'', sigNode ''C'' ''s1'', sigNode ''D'' ''s1''],
        DirGroup ''s2'' [sigNode ''B'' ''s2'']]"
proof -
  have s: "Signature (sigNode ''A'' ''s1'') = ''s1'' \<and> Signature (sigNode ''B'' ''s2'') = ''s2''
      \<and> Signature (sigNode ''C'' ''s1'') = ''s1'' \<and> Signature (sigNode ''D'' ''s1'') = ''s1''
      \<and> ''s1'' \<noteq> ''s2'' \<and> ''s1'' \<noteq> [] \<and> ''s2'' \<noteq> []"
    by (simp add: sigNode_def)
  have g: "GroupIdentical [Some (sigNode ''A'' ''s1''), Some (sigNode ''B'' ''s2''),
        Some (sigNode ''C'' ''s1''), Some (sigNode ''D'' ''s1'')] =
       [DirGroup ''s1'' [sigNode ''A'' ''s1'', sigNode ''C'' ''s1'', sigNode ''D'' ''s1''],
        DirGroup ''s2'' [sigNode ''B'' ''s2'']]"
    using grouping_stable [where toLower = asciiLower and a = "sigNode ''A'' ''s1''" and b = "sigNode ''B'' ''s2''"
      and c = "sigNode ''C'' ''s1''" and d = "sigNode ''D'' ''s1''"
      and ?s1.0 = "''s1''" and ?s2.0 = "''s2''"] s
    by blast
  have m: "map Signature (nonNil [Some (sigNode ''A'' ''s1''), Some (sigNode ''B'' ''s2''),
        Some (sigNode ''C'' ''s1''), Some (sigNode ''D'' ''s1'')]) = [''s1'', ''s2'', ''s1'', ''s1'']"
    by (simp add: sigNode_def)
  from g m show ?thesis by blast
qed

subsection \<open>Failures of the walk\<close>



subsection \<open>Permission errors\<close>

text \<open>
  Claim C8, as stated, fails on the code in one point: the signature of an error node is
  not derived from the category of the error. \<^verbatim>\<open>signatureForError\<close> prints the path and
  the Go type of the error (\<^verbatim>\<open>%T\<close>), and \<^verbatim>\<open>os.ReadDir\<close> returns a \<^verbatim>\<open>*fs.PathError\<close> both
  for a directory it may not open and for one that has vanished: the two nodes at
  \<^verbatim>\<open>root/locked\<close> have the same signature, and \<^verbatim>\<open>IsPermissionError\<close> answers true for
  the first and false for the second.
\<close>

theorem permission_error_counterexample:
  "errIsPermission permissionError \<and> \<not> errIsPermission vanishedError
   \<and> errType permissionError = ''*fs.PathError'' \<and> errType vanishedError = ''*fs.PathError''
   \<and> IsPermissionError
       (Some (walkDir asciiLower (FsUnreadable ''locked'' permissionError) ''root/locked'' ''locked'' 1 unlimitedOpts))
   \<and> \<not> IsPermissionError
       (Some (walkDir asciiLower (FsUnreadable ''locked'' vanishedError) ''root/locked'' ''locked'' 1 unlimitedOpts))
   \<and> Signature (walkDir asciiLower (FsUnreadable ''locked'' permissionError) ''root/locked'' ''locked'' 1 unlimitedOpts) =
       ''err:root/locked:*fs.PathError''
   \<and> Signature (walkDir asciiLower (FsUnreadable ''locked'' vanishedError) ''root/locked'' ''locked'' 1 unlimitedOpts) =
       ''err:root/locked:*fs.PathError''"
  by (simp add: permissionError_def vanishedError_def IsPermissionError_def signatureForError_def)

text \<open>
  Claim C8, amended. \<^verbatim>\<open>IsPermissionError\<close> answers true exactly for a node whose error
  is set and is a permission error: it answers false for nil, for a node without error
  (every directory that was read), and for a node with any other error; the node of a
  directory whose read fails answers it exactly when the failure is a permission error.
  That node has zero counts, no children and no files, and its signature is \<^verbatim>\<open>err:\<close>
  followed by its path and the Go type of the error, not its category. That signature
  differs from the signature of every directory that was read, the empty directory
  among them, so the two never fall under the same grouping key and no group of
  \<^verbatim>\<open>GroupIdentical\<close> holds both.
\<close>

theorem permission_error:
  "IsPermissionError None = False
   \<and> (IsPermissionError (Some d) \<longleftrightarrow> (\<exists>err. Err d = Some err \<and> errIsPermission err))
   \<and> IsPermissionError (Some (walkDir toLower (FsUnreadable n e) path name level opts)) = errIsPermission e
   \<and> IsPermissionError (Some (walkDir toLower (FsDir n' ents') path' name' level' opts')) = False
   \<and> walkDir toLower (FsUnreadable n e) path name level opts =
         Directory name path level [] [] 0 0 0 0 0 (''err:'' @ path @ '':'' @ errType e) (Some e)
   \<and> Signature (walkDir toLower (FsUnreadable n e) path name level opts) \<noteq>
         Signature (walkDir toLower (FsDir n' ents') path' name' level' opts')
   \<and> Signature (walkDir toLower (FsUnreadable n e) path name level opts) \<noteq>
         Signature (walkDir toLower (FsDir n'' []) path'' name'' level'' opts'')
   \<and> Signature (walkDir toLower (FsUnreadable n e) path name level opts) \<noteq>
         signatureForDirectory m subs
   \<and> groupKey (walkDir toLower (FsUnreadable n e) path name level opts) \<noteq>
         groupKey (walkDir toLower (FsDir n' ents') path' name' level' opts')
   \<and> \<not> (g \<in> set (GroupIdentical dirs)
            \<and> walkDir toLower (FsUnreadable n e) path name level opts \<in> set (dg_Members g)
            \<and> walkDir toLower (FsDir n' ents') path' name' level' opts' \<in> set (dg_Members g))"
proof -
  have s: "Signature (walkDir toLower (FsUnreadable n e) path name level opts) = signatureForError path e"
    by simp
  have k: "groupKey (walkDir toLower (FsUnreadable n e) path name level opts) = signatureForError path e"
    by (simp add: groupKey_def signatureForError_def)
  have k': "groupKey (walkDir toLower (FsDir n' ents') path' name' level' opts') =
      Signature (walkDir toLower (FsDir n' ents') path' name' level' opts')"
    by (simp add: groupKey_def walkDir_FsDir signatureForDirectory_def Let_def)
  have p0: "IsPermissionError None = False"
    by (simp add: IsPermissionError_def)
  have p1: "IsPermissionError (Some d) \<longleftrightarrow> (\<exists>err. Err d = Some err \<and> errIsPermission err)"
    by (cases "Err d") (simp_all add: IsPermissionError_def)
  have p2: "IsPermissionError (Some (walkDir toLower (FsUnreadable n e) path name level opts)) = errIsPermission e"
    by (simp add: IsPermissionError_def)
  have p3: "IsPermissionError (Some (walkDir toLower (FsDir n' ents') path' name' level' opts')) = False"
    by (simp add: IsPermissionError_def walkDir_FsDir)
  have v: "walkDir toLower (FsUnreadable n e) path name level opts =
         Directory name path level [] [] 0 0 0 0 0 (''err:'' @ path @ '':'' @ errType e) (Some e)"
    by (simp add: signatureForError_def)
  have d1: "signatureForError path e \<noteq> Signature (walkDir toLower (FsDir n' ents') path' name' level' opts')"
    unfolding Signature_walkDir_FsDir using sig_dir_neq_error by metis
  have d1': "signatureForError path e \<noteq> Signature (walkDir toLower (FsDir n'' []) path'' name'' level'' opts'')"
    unfolding Signature_walkDir_FsDir using sig_dir_neq_error by metis
  have d2: "signatureForError path e \<noteq> signatureForDirectory m subs"
    using sig_dir_neq_error by metis
  have kk: "groupKey (walkDir toLower (FsUnreadable n e) path name level opts) \<noteq>
      groupKey (walkDir toLower (FsDir n' ents') path' name' level' opts')"
    unfolding k k' by (rule d1)
  have g: "\<not> (g \<in> set (GroupIdentical dirs)
            \<and> walkDir toLower (FsUnreadable n e) path name level opts \<in> set (dg_Members g)
            \<and> walkDir toLower (FsDir n' ents') path' name' level' opts' \<in> set (dg_Members g))"
    using kk group_members_key [of g dirs] by metis
  show ?thesis
    unfolding s using p0 p1 p2 [unfolded s] p3 v d1 d1' d2 kk g by blast
qed

text \<open>
  Claim C8, witness: the unreadable \<open>root/locked\<close> against the empty directory
  \<open>root/empty\<close>; the same path when the directory has vanished; nil.
\<close>

theorem permission_error_witness:
  "errIsPermission permissionError
   \<and> IsPermissionError (Some (walkDir asciiLower (FsUnreadable ''locked'' permissionError) ''root/locked'' ''locked'' 1 unlimitedOpts))
   \<and> \<not> IsPermissionError (Some (walkDir asciiLower (FsUnreadable ''locked'' vanishedError) ''root/locked'' ''locked'' 1 unlimitedOpts))
   \<and> \<not> IsPermissionError (Some (walkDir asciiLower (FsDir ''empty'' []) ''root/empty'' ''empty'' 1 unlimitedOpts))
   \<and> \<not> IsPermissionError None
   \<and> Signature (walkDir asciiLower (FsUnreadable ''locked'' permissionError) ''root/locked'' ''locked'' 1 unlimitedOpts) =
       ''err:root/locked:*fs.PathError''
   \<and> Signature (walkDir asciiLower (FsUnreadable ''locked'' permissionError) ''root/locked'' ''locked'' 1 unlimitedOpts) \<noteq>
       Signature (walkDir asciiLower (FsDir ''empty'' []) ''root/empty'' ''empty'' 1 unlimitedOpts)"
proof -
  note a = permission_error [where toLower = asciiLower and e = permissionError
      and n = "''locked''" and path = "''root/locked''" and name = "''locked''"
      and level = 1 and opts = unlimitedOpts and n' = "''empty''" and ents' = "[]" and path' = "''root/empty''"
      and name' = "''empty''" and level' = 1 and opts' = unlimitedOpts]
  note b = permission_error [where toLower = asciiLower and e = vanishedError
      and n = "''locked''" and path = "''root/locked''" and name = "''locked''"
      and level = 1 and opts = unlimitedOpts]
  have h: "errIsPermission permissionError" "\<not> errIsPermission vanishedError"
    by (simp_all add: permissionError_def vanishedError_def)
  have s: "Signature (walkDir asciiLower (FsUnreadable ''locked'' permissionError) ''root/locked'' ''locked'' 1 unlimitedOpts) =
       ''err:root/locked:*fs.PathError''"
    by (simp add: permissionError_def signatureForError_def)
  from a [THEN conjunct2, THEN conjunct2, THEN conjunct1] h(1)
  have 1: "IsPermissionError (Some (walkDir asciiLower (FsUnreadable ''locked'' permissionError)
      ''root/locked'' ''locked'' 1 unlimitedOpts))"
    by blast
  from b [THEN conjunct2, THEN conjunct2, THEN conjunct1] h(2)
  have 2: "\<not> IsPermissionError (Some (walkDir asciiLower (FsUnreadable ''locked'' vanishedError)
      ''root/locked'' ''locked'' 1 unlimitedOpts))"
    by blast
  from a [THEN conjunct2, THEN conjunct2, THEN conjunct2, THEN conjunct1]
  have 3: "\<not> IsPermissionError (Some (walkDir asciiLower (FsDir ''empty'' []) ''root/empty'' ''empty'' 1 unlimitedOpts))"
    by blast
  from a [THEN conjunct1] have 4: "\<not> IsPermissionError None"
    by blast
  note 5 = a [THEN conjunct2, THEN conjunct2, THEN conjunct2, THEN conjunct2, THEN conjunct2, THEN conjunct1]
  from h(1) 1 2 3 4 s 5 show ?thesis by blast
qed

subsection \<open>Read order\<close>

text \<open>
  Claim C9. \<^verbatim>\<open>signatureForDirectory\<close> gives the same string for every order of the
  list of subdirectories: it hashes the extension keys in sorted order, each with its
  count, and then the child signatures in sorted order. A walk does not depend on the
  order in which the operating system returns the entries of any directory, the names
  within a directory being distinct: two snapshots that differ only in that order give
  the same tree, signatures included.
\<close>

theorem order_insensitive:
  "(mset subs = mset subs' \<longrightarrow> signatureForDirectory m subs = signatureForDirectory m subs')
   \<and> signatureForDirectory m subs =
       ''d:'' @ hex64 (fnv_Write fnv_offset64
         (''files:''
          @ concat (map (\<lambda>ext. ext @ [NUL] @ intToBytes (Mapping.lookup_default 0 m ext))
              (Mapping.ordered_keys m))
          @ ''dirs:''
          @ concat (map (\<lambda>sig. sig @ [NUL]) (sort (map Signature subs)))))
   \<and> sorted (Mapping.ordered_keys m)
   \<and> sorted (sort (map Signature subs))
   \<and> (mset ents = mset ents' \<and> distinct (map entryName ents) \<longrightarrow>
        walkDir toLower (FsDir n ents) path name level opts = walkDir toLower (FsDir n ents') path name level opts)
   \<and> (reordered a b \<and> distinctNames a \<longrightarrow>
        walkDir toLower a path name level opts = walkDir toLower b path name level opts)"
proof (intro conjI impI)
  show "signatureForDirectory m subs = signatureForDirectory m subs'" if "mset subs = mset subs'"
    using that by (rule signatureForDirectory_perm)
  show "signatureForDirectory m subs =
       ''d:'' @ hex64 (fnv_Write fnv_offset64
         (''files:''
          @ concat (map (\<lambda>ext. ext @ [NUL] @ intToBytes (Mapping.lookup_default 0 m ext))
              (Mapping.ordered_keys m))
          @ ''dirs:''
          @ concat (map (\<lambda>sig. sig @ [NUL]) (sort (map Signature subs)))))"
    by (simp add: signatureForDirectory_encode encodeDirectory_def encodeExts_def encodeSigs_def)
  show "sorted (Mapping.ordered_keys m)" by (rule ordered_keys_sorted)
  show "sorted (sort (map Signature subs))" by simp
  show "walkDir toLower (FsDir n ents) path name level opts = walkDir toLower (FsDir n ents') path name level opts"
    if "mset ents = mset ents' \<and> distinct (map entryName ents)"
    using that by (simp add: walk_entry_order)
  show "walkDir toLower a path name level opts = walkDir toLower b path name level opts"
    if "reordered a b \<and> distinctNames a"
    using that walk_reordered [of a b toLower opts] by blast
qed

text \<open>
  Claim C9, witness: the end-to-end tree read in two orders gives one tree, and a list
  of two children gives one signature in both orders.
\<close>

theorem order_insensitive_witness:
  "reordered endToEndRoot endToEndShuffled
   \<and> distinctNames endToEndRoot
   \<and> walkDir asciiLower endToEndShuffled ''root'' ''root'' 0 endToEndOpts = endToEndTree
   \<and> map Name (Subdirs endToEndTree) = [''pkg'', ''scripts'']
   \<and> mset [sigNode ''A'' ''s1'', sigNode ''B'' ''s2''] = mset [sigNode ''B'' ''s2'', sigNode ''A'' ''s1'']
   \<and> signatureForDirectory Mapping.empty [sigNode ''A'' ''s1'', sigNode ''B'' ''s2''] =
       signatureForDirectory Mapping.empty [sigNode ''B'' ''s2'', sigNode ''A'' ''s1'']"
proof -
  have r: "reordered endToEndRoot endToEndShuffled" by (rule endToEnd_reordered)
  have d: "distinctNames endToEndRoot" by (simp add: endToEndRoot_def)
  have m: "mset [sigNode ''A'' ''s1'', sigNode ''B'' ''s2''] = mset [sigNode ''B'' ''s2'', sigNode ''A'' ''s1'']"
    by simp
  have w: "walkDir asciiLower endToEndShuffled ''root'' ''root'' 0 endToEndOpts = endToEndTree"
    using order_insensitive [where toLower = asciiLower and a = endToEndRoot and b = endToEndShuffled and path = "''root''"
        and name = "''root''" and level = 0 and opts = endToEndOpts] r d
    by (simp add: endToEndTree_def)
  have s: "signatureForDirectory Mapping.empty [sigNode ''A'' ''s1'', sigNode ''B'' ''s2''] =
       signatureForDirectory Mapping.empty [sigNode ''B'' ''s2'', sigNode ''A'' ''s1'']"
    using order_insensitive [where toLower = asciiLower and subs = "[sigNode ''A'' ''s1'', sigNode ''B'' ''s2'']"
        and subs' = "[sigNode ''B'' ''s2'', sigNode ''A'' ''s1'']" and m = Mapping.empty] m
    by blast
  have n: "map Name (Subdirs endToEndTree) = [''pkg'', ''scripts'']"
    by (simp add: endToEndTree_def endToEndRoot_def endToEndOpts_def walkDir_FsDir dirEntries_def
        sortedEntries_def walkChild_def Let_def)
  from r d w n m s show ?thesis by blast
qed

subsection \<open>Nil entries in grouping\<close>

text \<open>
  Claim C10, as stated, fails on the code in its last part: the members of the groups,
  taken group after group, are not the input without its \<^verbatim>\<open>nil\<close> entries when two
  directories of one group have a directory of another group between them.
\<close>

theorem nil_skipped_counterexample:
  "concat (map dg_Members (GroupIdentical
      [Some (sigNode ''A'' ''s1''), Some (sigNode ''B'' ''s2''), Some (sigNode ''C'' ''s1'')])) =
     [sigNode ''A'' ''s1'', sigNode ''C'' ''s1'', sigNode ''B'' ''s2'']
   \<and> nonNil [Some (sigNode ''A'' ''s1''), Some (sigNode ''B'' ''s2''), Some (sigNode ''C'' ''s1'')] =
     [sigNode ''A'' ''s1'', sigNode ''B'' ''s2'', sigNode ''C'' ''s1'']
   \<and> concat (map dg_Members (GroupIdentical
      [Some (sigNode ''A'' ''s1''), Some (sigNode ''B'' ''s2''), Some (sigNode ''C'' ''s1'')])) \<noteq>
     nonNil [Some (sigNode ''A'' ''s1''), Some (sigNode ''B'' ''s2''), Some (sigNode ''C'' ''s1'')]"
  by (simp add: GroupIdentical_eq groupKey_def sigNode_def)

text \<open>
  Claim C10, amended. \<^verbatim>\<open>GroupIdentical\<close> skips \<^verbatim>\<open>nil\<close> entries: the result is the
  same as without them. The members of all groups together are the entries that are not
  \<^verbatim>\<open>nil\<close>, each as often as it occurs in the input, in a different order in general.
  The groups have distinct keys, and each group holds, in input order, exactly the
  entries with its key, at least one.
\<close>

theorem nil_skipped:
  "mset (concat (map dg_Members (GroupIdentical dirs))) = mset (nonNil dirs)
   \<and> GroupIdentical dirs = GroupIdentical (map Some (nonNil dirs))
   \<and> GroupIdentical (xs @ None # ys) = GroupIdentical (xs @ ys)
   \<and> distinct (map dg_Signature (GroupIdentical dirs))
   \<and> (\<forall>g \<in> set (GroupIdentical dirs).
        dg_Members g = filter (\<lambda>d. groupKey d = dg_Signature g) (nonNil dirs)
        \<and> dg_Members g \<noteq> [])"
proof (intro conjI ballI)
  let ?ks = "firstOccurrences (map groupKey (nonNil dirs))"
  have "mset (concat (map dg_Members (GroupIdentical dirs))) =
      mset (concat (map (\<lambda>s. filter (\<lambda>d. groupKey d = s) (nonNil dirs)) ?ks))"
    by (simp add: GroupIdentical_eq comp_def)
  also have "\<dots> = mset (filter (\<lambda>d. groupKey d \<in> set ?ks) (nonNil dirs))"
    by (rule mset_groups) (rule distinct_firstOccurrences)
  also have "\<dots> = mset (nonNil dirs)"
    by (simp add: set_firstOccurrences)
  finally show "mset (concat (map dg_Members (GroupIdentical dirs))) = mset (nonNil dirs)" .
  show "GroupIdentical dirs = GroupIdentical (map Some (nonNil dirs))"
    by (simp add: GroupIdentical_eq nonNil_map_Some)
  show "GroupIdentical (xs @ None # ys) = GroupIdentical (xs @ ys)"
    by (simp add: GroupIdentical_eq nonNil_append)
  show "distinct (map dg_Signature (GroupIdentical dirs))"
    by (simp add: GroupIdentical_eq comp_def distinct_firstOccurrences)
next
  fix g assume "g \<in> set (GroupIdentical dirs)"
  then obtain s where s: "s \<in> groupKey ` set (nonNil dirs)"
    and g: "g = DirGroup s (filter (\<lambda>d. groupKey d = s) (nonNil dirs))"
    by (auto simp: GroupIdentical_eq set_firstOccurrences)
  show "dg_Members g = filter (\<lambda>d. groupKey d = dg_Signature g) (nonNil dirs)"
    by (simp add: g)
  show "dg_Members g \<noteq> []"
    using s by (auto simp: g filter_empty_conv)
qed

text \<open>Claim C10, witness: an input with a \<^verbatim>\<open>nil\<close> entry between two groups.\<close>

theorem nil_skipped_witness:
  "DirGroup ''s1'' [sigNode ''A'' ''s1'', sigNode ''C'' ''s1''] \<in>
      set (GroupIdentical [Some (sigNode ''A'' ''s1''), None, Some (sigNode ''B'' ''s2''), Some (sigNode ''C'' ''s1'')])
   \<and> filter (\<lambda>d. groupKey d = ''s1'')
       (nonNil [Some (sigNode ''A'' ''s1''), None, Some (sigNode ''B'' ''s2''), Some (sigNode ''C'' ''s1'')]) =
       [sigNode ''A'' ''s1'', sigNode ''C'' ''s1'']
   \<and> mset (concat (map dg_Members (GroupIdentical
        [Some (sigNode ''A'' ''s1''), None, Some (sigNode ''B'' ''s2''), Some (sigNode ''C'' ''s1'')]))) =
       {#sigNode ''A'' ''s1'', sigNode ''B'' ''s2'', sigNode ''C'' ''s1''#}"
proof -
  let ?dirs = "[Some (sigNode ''A'' ''s1''), None, Some (sigNode ''B'' ''s2''), Some (sigNode ''C'' ''s1'')]"
  have g: "GroupIdentical ?dirs =
      [DirGroup ''s1'' [sigNode ''A'' ''s1'', sigNode ''C'' ''s1''], DirGroup ''s2'' [sigNode ''B'' ''s2'']]"
    by (simp add: GroupIdentical_eq groupKey_def sigNode_def)
  have m: "DirGroup ''s1'' [sigNode ''A'' ''s1'', sigNode ''C'' ''s1''] \<in> set (GroupIdentical ?dirs)"
    by (simp add: g)
  from nil_skipped [of ?dirs] m
  have "dg_Members (DirGroup ''s1'' [sigNode ''A'' ''s1'', sigNode ''C'' ''s1'']) =
      filter (\<lambda>d. groupKey d = dg_Signature (DirGroup ''s1'' [sigNode ''A'' ''s1'', sigNode ''C'' ''s1'']))
        (nonNil ?dirs)"
    and "mset (concat (map dg_Members (GroupIdentical ?dirs))) = mset (nonNil ?dirs)"
    by blast+
  then show ?thesis using m by simp
qed

end
